theory Spec2Isabelle
  imports Main "HOL-Library.Multiset"
begin

section \<open>Objects, identity and the heap of game states\<close>

text \<open>
  The TypeScript compares cards and conditions by object identity
  (\<^verbatim>\<open>Array.prototype.includes\<close>, the keys of a \<^verbatim>\<open>Map\<close>). An object is
  modelled as its reference together with its content: two objects are the same object
  when their references agree, and structurally equal when their contents agree.
\<close>

datatype 'a obj = Obj (obj_id: nat) (obj_val: 'a)

text \<open>\<^verbatim>\<open>usedCards.includes(card)\<close>: membership by identity.\<close>

definition Array_includes :: "'a obj list \<Rightarrow> 'a obj \<Rightarrow> bool" where
  "Array_includes xs x = list_ex (\<lambda>y. obj_id y = obj_id x) xs"

text \<open>
  A \<^verbatim>\<open>GameState\<close> is a mutable object: the world holds the value of every game state
  object under its address, and the next unused object reference. The field \<open>calls\<close> is
  a ghost log: the recursion depth and the \<^verbatim>\<open>usedCards\<close> argument of every invocation
  of \<^verbatim>\<open>generateFreeCardPermutations\<close>, in call order. No definition reads it.
\<close>

record ('gs, 'k) world =
  cells :: "nat \<Rightarrow> 'gs"
  fresh :: nat
  calls :: "(nat \<times> 'k obj list) list"

section \<open>The collaborators of simulation.ts\<close>

text \<open>
  simulation.ts imports \<^verbatim>\<open>GameState\<close>, \<^verbatim>\<open>evaluateCondition\<close>,
  \<^verbatim>\<open>serialiseCondition\<close>, \<^verbatim>\<open>deserialiseCondition\<close>, \<^verbatim>\<open>freeCardIsUsable\<close> and
  \<^verbatim>\<open>processFreeCard\<close> from modules that are not among the sources. They are parameters
  of the model. \<open>deepCopyState\<close> is the value of the clone that \<^verbatim>\<open>deepCopy\<close> returns;
  \<open>processFreeCard\<close> is the effect of the processor on the game state of the branch it
  is given; \<open>deserialiseCondition\<close> is handed the next unused object reference, which a
  decoder that builds a new object uses and a decoder that interns ignores.
\<close>

record ('gs, 'c, 'k, 'sg, 'sc) env =
  deepCopyState :: "'gs \<Rightarrow> 'gs"
  hand :: "'gs \<Rightarrow> 'k obj list"
  deckList :: "'gs \<Rightarrow> 'k obj list"
  freeCardsInHand :: "'gs \<Rightarrow> 'k obj list"
  evaluateCondition :: "'c obj \<Rightarrow> 'k obj list \<Rightarrow> 'k obj list \<Rightarrow> bool"
  freeCardIsUsable :: "'gs \<Rightarrow> 'k obj \<Rightarrow> bool"
  processFreeCard :: "'gs \<Rightarrow> 'k obj \<Rightarrow> 'gs"
  serialiseState :: "'gs \<Rightarrow> 'sg"
  deserializeState :: "'sg \<Rightarrow> 'gs"
  serialiseCondition :: "'c obj \<Rightarrow> 'sc"
  deserialiseCondition :: "nat \<Rightarrow> 'sc \<Rightarrow> 'c obj"

text \<open>
  Modelled from the spec: \<^verbatim>\<open>GameState.deepCopy\<close> (game-state.ts is missing) "returns
  fully isolated clone, no shared mutable sub-objects": a new object at an unused
  address, holding the clone's value.
\<close>

definition deepCopy ::
  "('gs, 'c, 'k, 'sg, 'sc) env \<Rightarrow> ('gs, 'k) world \<Rightarrow> nat \<Rightarrow> nat \<times> ('gs, 'k) world" where
  "deepCopy E W a =
     (fresh W, W\<lparr>cells := (cells W)(fresh W := deepCopyState E (cells W a)),
                 fresh := Suc (fresh W)\<rparr>)"

text \<open>
  Modelled from the spec: \<^verbatim>\<open>GameState.deserialize\<close> (game-state.ts is missing) builds a
  new game state object from its serialised form.
\<close>

definition GameState_deserialize ::
  "('gs, 'c, 'k, 'sg, 'sc) env \<Rightarrow> ('gs, 'k) world \<Rightarrow> 'sg \<Rightarrow> nat \<times> ('gs, 'k) world" where
  "GameState_deserialize E W sg =
     (fresh W, W\<lparr>cells := (cells W)(fresh W := deserializeState E sg),
                 fresh := Suc (fresh W)\<rparr>)"

text \<open>A call of \<^verbatim>\<open>deserialiseCondition\<close>: the decoder may consume one object reference.\<close>

definition deserialiseCondition_call ::
  "('gs, 'c, 'k, 'sg, 'sc) env \<Rightarrow> ('gs, 'k) world \<Rightarrow> 'sc \<Rightarrow> 'c obj \<times> ('gs, 'k) world" where
  "deserialiseCondition_call E W sc =
     (deserialiseCondition E (fresh W) sc, W\<lparr>fresh := Suc (fresh W)\<rparr>)"

section \<open>SimulationBranch\<close>

record 'c SimulationBranch =
  br_gameState :: nat
  br_result :: bool
  br_condition :: "'c obj"

record ('sg, 'sc) SerialisedSimulationBranch =
  sb_result :: bool
  sb_gameState :: 'sg
  sb_condition :: 'sc

text \<open>The constructor: \<^verbatim>\<open>gameState.deepCopy()\<close>, result false, the condition as given.\<close>

definition new_SimulationBranch ::
  "('gs, 'c, 'k, 'sg, 'sc) env \<Rightarrow> ('gs, 'k) world \<Rightarrow> nat \<Rightarrow> 'c obj
     \<Rightarrow> 'c SimulationBranch \<times> ('gs, 'k) world" where
  "new_SimulationBranch E W gameState condition =
     (case deepCopy E W gameState of
        (copy, W') \<Rightarrow>
          (\<lparr>br_gameState = copy, br_result = False, br_condition = condition\<rparr>, W'))"

definition run ::
  "('gs, 'c, 'k, 'sg, 'sc) env \<Rightarrow> ('gs, 'k) world \<Rightarrow> 'c SimulationBranch
     \<Rightarrow> 'c SimulationBranch" where
  "run E W branch =
     branch\<lparr>br_result :=
       evaluateCondition E (br_condition branch)
         (hand E (cells W (br_gameState branch)))
         (deckList E (cells W (br_gameState branch)))\<rparr>"


definition SimulationBranch_deserialise ::
  "('gs, 'c, 'k, 'sg, 'sc) env \<Rightarrow> ('gs, 'k) world \<Rightarrow> ('sg, 'sc) SerialisedSimulationBranch
     \<Rightarrow> 'c SimulationBranch \<times> ('gs, 'k) world" where
  "SimulationBranch_deserialise E W serialisedBranch =
     (case GameState_deserialize E W (sb_gameState serialisedBranch) of
        (gameState, W1) \<Rightarrow>
     (case deserialiseCondition_call E W1 (sb_condition serialisedBranch) of
        (condition, W2) \<Rightarrow>
     (case new_SimulationBranch E W2 gameState condition of
        (branch, W3) \<Rightarrow>
          (branch\<lparr>br_result := sb_result serialisedBranch\<rparr>, W3))))"

section \<open>Simulation\<close>

text \<open>
  \<^verbatim>\<open>_branches\<close> is a \<^verbatim>\<open>Map\<close> keyed by condition objects: an association list in
  insertion order, looked up by the identity of the key.
\<close>

record 'c Simulation =
  sim_gameState :: nat
  sim_branches :: "('c obj \<times> 'c SimulationBranch list) list"
  sim_conditions :: "'c obj list"

record ('sg, 'sc) SerialisedSimulation =
  ss_gameState :: 'sg
  ss_conditions :: "'sc list"
  ss_branches :: "('sg, 'sc) SerialisedSimulationBranch list"

fun Map_has :: "('a obj \<times> 'v) list \<Rightarrow> 'a obj \<Rightarrow> bool" where
  "Map_has [] k = False"
| "Map_has ((k', v) # m) k = (obj_id k' = obj_id k \<or> Map_has m k)"

fun Map_get :: "('a obj \<times> 'v) list \<Rightarrow> 'a obj \<Rightarrow> 'v option" where
  "Map_get [] k = None"
| "Map_get ((k', v) # m) k = (if obj_id k' = obj_id k then Some v else Map_get m k)"

text \<open>\<^verbatim>\<open>Map.set\<close>: a key that is present keeps its place and its key object.\<close>

fun Map_set :: "('a obj \<times> 'v) list \<Rightarrow> 'a obj \<Rightarrow> 'v \<Rightarrow> ('a obj \<times> 'v) list" where
  "Map_set [] k v = [(k, v)]"
| "Map_set ((k', v') # m) k v =
     (if obj_id k' = obj_id k then (k', v) # m else (k', v') # Map_set m k v)"

text \<open>
  \<^verbatim>\<open>(m.get(k) || []).push(b)\<close> and \<^verbatim>\<open>m.get(k)?.push(b)\<close>: the array stored under the
  key grows in place; when the key is absent nothing stored changes.
\<close>

fun Map_push :: "('a obj \<times> 'v list) list \<Rightarrow> 'a obj \<Rightarrow> 'v \<Rightarrow> ('a obj \<times> 'v list) list" where
  "Map_push [] k b = []"
| "Map_push ((k', bs) # m) k b =
     (if obj_id k' = obj_id k then (k', bs @ [b]) # m else (k', bs) # Map_push m k b)"

definition new_Simulation ::
  "('gs, 'c, 'k, 'sg, 'sc) env \<Rightarrow> ('gs, 'k) world \<Rightarrow> nat \<Rightarrow> 'c obj list
     \<Rightarrow> 'c Simulation \<times> ('gs, 'k) world" where
  "new_Simulation E W gameState conditions =
     (case deepCopy E W gameState of
        (copy, W') \<Rightarrow>
          (\<lparr>sim_gameState = copy, sim_branches = [], sim_conditions = conditions\<rparr>, W'))"

definition successfulBranches ::
  "'c Simulation \<Rightarrow> ('c obj \<times> 'c SimulationBranch option) list" where
  "successfulBranches sim =
     map (\<lambda>(condition, branches). (condition, find (\<lambda>branch. br_result branch) branches))
       (sim_branches sim)"

definition failedBranches ::
  "'c Simulation \<Rightarrow> ('c obj \<times> 'c SimulationBranch option) list" where
  "failedBranches sim =
     map (\<lambda>(condition, branches). (condition, find (\<lambda>branch. \<not> br_result branch) branches))
       (sim_branches sim)"

text \<open>The getter \<^verbatim>\<open>result\<close>; its \<^verbatim>\<open>console.log\<close> is not modelled.\<close>

definition Simulation_result :: "'c Simulation \<Rightarrow> bool" where
  "Simulation_result sim =
     list_ex (\<lambda>(condition, branch).
                case branch of None \<Rightarrow> False | Some b \<Rightarrow> br_result b)
       (successfulBranches sim)"

definition runBranch ::
  "('gs, 'c, 'k, 'sg, 'sc) env \<Rightarrow> ('gs, 'k) world \<Rightarrow> 'c Simulation \<Rightarrow> 'c SimulationBranch
     \<Rightarrow> 'c Simulation" where
  "runBranch E W sim branch =
     (let branch' = run E W branch;
          m = (if \<not> Map_has (sim_branches sim) (br_condition branch')
               then Map_set (sim_branches sim) (br_condition branch') []
               else sim_branches sim)
      in sim\<lparr>sim_branches := Map_push m (br_condition branch') branch'\<rparr>)"

text \<open>
  The recursion of \<^verbatim>\<open>generateFreeCardPermutations\<close> is bounded only by what the
  collaborators do, so the model carries a budget of nested calls: a call made with no
  budget left ends the whole computation, as an exhausted call stack does, and the state
  reached so far is kept.
\<close>

datatype 'a outcome = Returned 'a | DepthExceeded 'a

fun state_of :: "'a outcome \<Rightarrow> 'a" where
  "state_of (Returned s) = s"
| "state_of (DepthExceeded s) = s"

fun returned :: "'a outcome \<Rightarrow> bool" where
  "returned (Returned s) = True"
| "returned (DepthExceeded s) = False"

text \<open>The candidates: the filter at the head of \<^verbatim>\<open>generateFreeCardPermutations\<close>.\<close>

definition candidates ::
  "('gs, 'c, 'k, 'sg, 'sc) env \<Rightarrow> 'gs \<Rightarrow> 'k obj list \<Rightarrow> 'k obj list" where
  "candidates E gs usedCards =
     filter (\<lambda>card. freeCardIsUsable E gs card \<and> \<not> Array_includes usedCards card)
       (freeCardsInHand E gs)"

text \<open>\<^verbatim>\<open>processFreeCard(branch, freeCard)\<close> acts on the game state the branch owns.\<close>

definition processFreeCard_call ::
  "('gs, 'c, 'k, 'sg, 'sc) env \<Rightarrow> ('gs, 'k) world \<Rightarrow> 'c SimulationBranch \<Rightarrow> 'k obj
     \<Rightarrow> ('gs, 'k) world" where
  "processFreeCard_call E W branch freeCard =
     W\<lparr>cells := (cells W)(br_gameState branch :=
          processFreeCard E (cells W (br_gameState branch)) freeCard)\<rparr>"

text \<open>
  \<open>generateFreeCardPermutations n\<close> may nest \<open>n\<close> calls, itself included; \<open>depth\<close> is
  the nesting depth of the call (ghost, for the log only). \<open>freeCards_loop\<close> is the
  \<^verbatim>\<open>for (const freeCard of freeCards)\<close> loop of one call.
\<close>

fun generateFreeCardPermutations ::
  "nat \<Rightarrow> ('gs, 'c, 'k, 'sg, 'sc) env \<Rightarrow> ('gs, 'k) world \<times> 'c Simulation \<Rightarrow> nat \<Rightarrow> 'c obj
     \<Rightarrow> 'k obj list \<Rightarrow> nat \<Rightarrow> (('gs, 'k) world \<times> 'c Simulation) outcome"
and freeCards_loop ::
  "nat \<Rightarrow> ('gs, 'c, 'k, 'sg, 'sc) env \<Rightarrow> ('gs, 'k) world \<times> 'c Simulation \<Rightarrow> nat \<Rightarrow> 'c obj
     \<Rightarrow> 'k obj list \<Rightarrow> nat \<Rightarrow> 'k obj list \<Rightarrow> (('gs, 'k) world \<times> 'c Simulation) outcome"
where
  "generateFreeCardPermutations 0 E S gameState condition usedCards depth = DepthExceeded S"
| "generateFreeCardPermutations (Suc n) E S gameState condition usedCards depth =
     (let W = (fst S)\<lparr>calls := calls (fst S) @ [(depth, usedCards)]\<rparr>;
          freeCards = candidates E (cells W gameState) usedCards
      in if length freeCards = 0 then Returned (W, snd S)
         else freeCards_loop n E (W, snd S) gameState condition usedCards depth freeCards)"
| "freeCards_loop n E S gameState condition usedCards depth [] = Returned S"
| "freeCards_loop n E S gameState condition usedCards depth (freeCard # rest) =
     (if \<not> freeCardIsUsable E (cells (fst S) gameState) freeCard
      then freeCards_loop n E S gameState condition usedCards depth rest
      else
        (case deepCopy E (fst S) gameState of (newGameState, W1) \<Rightarrow>
        (case new_SimulationBranch E W1 newGameState condition of (branch, W2) \<Rightarrow>
          (let W3 = processFreeCard_call E W2 branch freeCard;
               sim = runBranch E W3 (snd S) branch
           in if Simulation_result sim then Returned (W3, sim)
              else
                (case generateFreeCardPermutations n E (W3, sim) (br_gameState branch)
                        condition (usedCards @ [freeCard]) (Suc depth) of
                   DepthExceeded S' \<Rightarrow> DepthExceeded S'
                 | Returned S' \<Rightarrow>
                     freeCards_loop n E S' gameState condition usedCards depth rest)))))"

text \<open>
  The callback of \<^verbatim>\<open>this._conditions.forEach\<close> in \<^verbatim>\<open>iterate\<close>: its \<^verbatim>\<open>return\<close> ends
  the callback for one condition.
\<close>

definition iterate_callback ::
  "nat \<Rightarrow> ('gs, 'c, 'k, 'sg, 'sc) env \<Rightarrow> ('gs, 'k) world \<times> 'c Simulation \<Rightarrow> 'c obj
     \<Rightarrow> (('gs, 'k) world \<times> 'c Simulation) outcome" where
  "iterate_callback n E S condition =
     (case new_SimulationBranch E (fst S) (sim_gameState (snd S)) condition of
        (branch, W1) \<Rightarrow>
          (let sim = runBranch E W1 (snd S) branch
           in if Simulation_result sim then Returned (W1, sim)
              else generateFreeCardPermutations n E (W1, sim) (sim_gameState sim)
                     condition [] 0))"

fun forEach ::
  "('s \<Rightarrow> 'a \<Rightarrow> 's outcome) \<Rightarrow> 's \<Rightarrow> 'a list \<Rightarrow> 's outcome" where
  "forEach f S [] = Returned S"
| "forEach f S (x # xs) =
     (case f S x of
        DepthExceeded S' \<Rightarrow> DepthExceeded S'
      | Returned S' \<Rightarrow> forEach f S' xs)"

definition iterate ::
  "nat \<Rightarrow> ('gs, 'c, 'k, 'sg, 'sc) env \<Rightarrow> ('gs, 'k) world \<times> 'c Simulation
     \<Rightarrow> (('gs, 'k) world \<times> 'c Simulation) outcome" where
  "iterate n E S = forEach (iterate_callback n E) S (sim_conditions (snd S))"

text \<open>\<^verbatim>\<open>runSimulation\<close>: construct, then iterate.\<close>

definition runSimulation ::
  "nat \<Rightarrow> ('gs, 'c, 'k, 'sg, 'sc) env \<Rightarrow> ('gs, 'k) world \<Rightarrow> nat \<Rightarrow> 'c obj list
     \<Rightarrow> (('gs, 'k) world \<times> 'c Simulation) outcome" where
  "runSimulation n E W gameState conditions =
     (case new_Simulation E W gameState conditions of
        (simulation, W') \<Rightarrow> iterate n E (W', simulation))"

subsection \<open>Serialisation\<close>

text \<open>The branches of the map, entry after entry: \<^verbatim>\<open>Array.from(this._branches)...flat()\<close>.\<close>

definition flat_branches :: "'c Simulation \<Rightarrow> 'c SimulationBranch list" where
  "flat_branches sim = concat (map snd (sim_branches sim))"


text \<open>\<^verbatim>\<open>xs.map(f)\<close> for an \<open>f\<close> that allocates: the world is threaded left to right.\<close>

fun map_alloc :: "('w \<Rightarrow> 'a \<Rightarrow> 'b \<times> 'w) \<Rightarrow> 'w \<Rightarrow> 'a list \<Rightarrow> 'b list \<times> 'w" where
  "map_alloc f W [] = ([], W)"
| "map_alloc f W (x # xs) =
     (case f W x of (y, W1) \<Rightarrow>
        (case map_alloc f W1 xs of (ys, W2) \<Rightarrow> (y # ys, W2)))"

text \<open>The loop of \<^verbatim>\<open>Simulation.deserialise\<close> that files the decoded branches.\<close>

definition insert_branch :: "'c Simulation \<Rightarrow> 'c SimulationBranch \<Rightarrow> 'c Simulation" where
  "insert_branch simulation branch =
     (let m = (if \<not> Map_has (sim_branches simulation) (br_condition branch)
               then Map_set (sim_branches simulation) (br_condition branch) []
               else sim_branches simulation)
      in simulation\<lparr>sim_branches := Map_push m (br_condition branch) branch\<rparr>)"

text \<open>
  \<^verbatim>\<open>Simulation.deserialise\<close> up to and including the decoding of the branches: the
  new simulation, the decoded branches and the world.
\<close>

definition Simulation_deserialise_decode ::
  "('gs, 'c, 'k, 'sg, 'sc) env \<Rightarrow> ('gs, 'k) world \<Rightarrow> ('sg, 'sc) SerialisedSimulation
     \<Rightarrow> 'c Simulation \<times> 'c SimulationBranch list \<times> ('gs, 'k) world" where
  "Simulation_deserialise_decode E W serialisedSimulation =
     (case GameState_deserialize E W (ss_gameState serialisedSimulation) of
        (gameState, W1) \<Rightarrow>
     (case map_alloc (deserialiseCondition_call E) W1 (ss_conditions serialisedSimulation) of
        (conditions, W2) \<Rightarrow>
     (case new_Simulation E W2 gameState conditions of
        (simulation, W3) \<Rightarrow>
     (case map_alloc (SimulationBranch_deserialise E) W3 (ss_branches serialisedSimulation) of
        (branches, W4) \<Rightarrow> (simulation, branches, W4)))))"

definition Simulation_deserialise ::
  "('gs, 'c, 'k, 'sg, 'sc) env \<Rightarrow> ('gs, 'k) world \<Rightarrow> ('sg, 'sc) SerialisedSimulation
     \<Rightarrow> 'c Simulation \<times> ('gs, 'k) world" where
  "Simulation_deserialise E W serialisedSimulation =
     (case Simulation_deserialise_decode E W serialisedSimulation of
        (simulation, branches, W4) \<Rightarrow> (foldl insert_branch simulation branches, W4))"

section \<open>Vocabulary of the statements\<close>

text \<open>
  The state after one pass through the body of the loop of
  \<^verbatim>\<open>generateFreeCardPermutations\<close> up to \<^verbatim>\<open>this.runBranch(branch)\<close>: the copy, the
  new branch, the processed card and the recorded branch.
\<close>

definition explore ::
  "('gs, 'c, 'k, 'sg, 'sc) env \<Rightarrow> ('gs, 'k) world \<times> 'c Simulation \<Rightarrow> nat \<Rightarrow> 'c obj \<Rightarrow> 'k obj
     \<Rightarrow> ('gs, 'k) world \<times> 'c Simulation" where
  "explore E S gameState condition freeCard =
     (case deepCopy E (fst S) gameState of (newGameState, W1) \<Rightarrow>
     (case new_SimulationBranch E W1 newGameState condition of (branch, W2) \<Rightarrow>
       (let W3 = processFreeCard_call E W2 branch freeCard
        in (W3, runBranch E W3 (snd S) branch))))"

text \<open>
  What \<^verbatim>\<open>failedBranches\<close> may pair with a condition whose recorded branches are \<open>bs\<close>:
  nothing when every branch succeeded, otherwise the first branch that failed.
\<close>

definition first_failing :: "'c SimulationBranch list \<Rightarrow> 'c SimulationBranch option \<Rightarrow> bool" where
  "first_failing bs r =
     (case r of
        None \<Rightarrow> list_all br_result bs
      | Some b \<Rightarrow> (\<exists>pre post. bs = pre @ b # post \<and> \<not> br_result b \<and> list_all br_result pre))"

text \<open>The log entries a computation has added to those of \<open>W\<close>.\<close>

definition new_calls :: "('gs, 'k) world \<Rightarrow> ('gs, 'k) world \<Rightarrow> (nat \<times> 'k obj list) list" where
  "new_calls W W' = drop (length (calls W)) (calls W')"

text \<open>
  The processor never puts a free card into the hand that was not there: the free cards
  in hand after processing (on the copy of the copy that the search takes) are, by
  identity, among those before.
\<close>

definition no_new_free_cards :: "('gs, 'c, 'k, 'sg, 'sc) env \<Rightarrow> bool" where
  "no_new_free_cards E =
     (\<forall>gs freeCard.
        obj_id ` set (freeCardsInHand E
                        (processFreeCard E (deepCopyState E (deepCopyState E gs)) freeCard))
          \<subseteq> obj_id ` set (freeCardsInHand E gs))"

text \<open>
  Recording a branch in the map, as \<^verbatim>\<open>runBranch\<close> and the loop of
  \<^verbatim>\<open>Simulation.deserialise\<close> both do it: create the entry when the key is absent,
  then push.
\<close>

definition record_branch ::
  "('c obj \<times> 'c SimulationBranch list) list \<Rightarrow> 'c SimulationBranch
     \<Rightarrow> ('c obj \<times> 'c SimulationBranch list) list" where
  "record_branch m b =
     Map_push (if \<not> Map_has m (br_condition b) then Map_set m (br_condition b) [] else m)
       (br_condition b) b"

text \<open>
  \<open>extends S S'\<close>: \<open>S'\<close> is reached from \<open>S\<close> by allocating objects, writing to
  newly allocated game states only, logging calls and appending branches.
\<close>

definition extends ::
  "('gs, 'k) world \<times> 'c Simulation \<Rightarrow> ('gs, 'k) world \<times> 'c Simulation \<Rightarrow> bool" where
  "extends S S' =
     (fresh (fst S) \<le> fresh (fst S') \<and>
      (\<forall>a<fresh (fst S). cells (fst S') a = cells (fst S) a) \<and>
      (\<exists>l. calls (fst S') = calls (fst S) @ l) \<and>
      sim_gameState (snd S') = sim_gameState (snd S) \<and>
      sim_conditions (snd S') = sim_conditions (snd S) \<and>
      (\<forall>k bs. Map_get (sim_branches (snd S)) k = Some bs \<longrightarrow>
         (\<exists>more. Map_get (sim_branches (snd S')) k = Some (bs @ more))))"

text \<open>
  What holds of a log entry \<open>e\<close> written by a call made at depth \<open>d\<close> with
  \<^verbatim>\<open>usedCards\<close> \<open>u\<close> and a budget of \<open>n\<close> nested calls, or by a call nested in it.
\<close>

definition call_ok :: "nat \<Rightarrow> 'k obj list \<Rightarrow> nat \<Rightarrow> nat \<times> 'k obj list \<Rightarrow> bool" where
  "call_ok d u n e =
     (d \<le> fst e \<and> fst e < d + n \<and> length (snd e) = length u + (fst e - d) \<and>
      (distinct (map obj_id u) \<longrightarrow> distinct (map obj_id (snd e))))"

text \<open>
  The game states the search can come to from \<open>gs0\<close>: each step uses a usable free
  card of the hand, on the copy of the copy that the search takes.
\<close>

inductive reaches :: "('gs, 'c, 'k, 'sg, 'sc) env \<Rightarrow> 'gs \<Rightarrow> 'gs \<Rightarrow> bool"
  for E :: "('gs, 'c, 'k, 'sg, 'sc) env" and gs0 :: 'gs where
  start: "reaches E gs0 gs0"
| use: "reaches E gs0 gs \<Longrightarrow> freeCard \<in> set (freeCardsInHand E gs) \<Longrightarrow>
        freeCardIsUsable E gs freeCard \<Longrightarrow>
        reaches E gs0 (processFreeCard E (deepCopyState E (deepCopyState E gs)) freeCard)"

text \<open>
  The free supply of a game state: the identities of the free cards that are in hand in
  some game state the search can come to.
\<close>

definition free_supply :: "('gs, 'c, 'k, 'sg, 'sc) env \<Rightarrow> 'gs \<Rightarrow> nat set" where
  "free_supply E gs0 =
     {i. \<exists>gs. reaches E gs0 gs \<and> i \<in> obj_id ` set (freeCardsInHand E gs)}"



section \<open>A concrete table\<close>

text \<open>
  Modelled from the spec: \<^verbatim>\<open>GameState\<close> (game-state.ts is missing) holds a hand, a
  deck and the cards played this turn; \<^verbatim>\<open>playCard\<close> "removes card from hand, appends to
  played-this-turn". A card is a name and the flag that it is free. The examples below
  instantiate the collaborators on this state: a condition names a card and holds when
  the hand has a card of that name; every free card is usable; the processor plays the
  card and, when \<open>draws\<close> is set, draws the top card of the deck into the hand.
\<close>

record GameState =
  gs_hand :: "(string \<times> bool) obj list"
  gs_deck :: "(string \<times> bool) obj list"
  gs_played :: "(string \<times> bool) obj list"

definition playCard :: "GameState \<Rightarrow> (string \<times> bool) obj \<Rightarrow> GameState" where
  "playCard gs c =
     gs\<lparr>gs_hand := filter (\<lambda>x. obj_id x \<noteq> obj_id c) (gs_hand gs),
        gs_played := gs_played gs @ [c]\<rparr>"

definition drawCard :: "GameState \<Rightarrow> GameState" where
  "drawCard gs =
     (case gs_deck gs of
        [] \<Rightarrow> gs
      | c # cs \<Rightarrow> gs\<lparr>gs_hand := gs_hand gs @ [c], gs_deck := cs\<rparr>)"

definition table_env ::
  "bool \<Rightarrow> (GameState, string, string \<times> bool, GameState, string) env" where
  "table_env draws =
     \<lparr>deepCopyState = (\<lambda>gs. gs),
      hand = gs_hand,
      deckList = gs_deck,
      freeCardsInHand = (\<lambda>gs. filter (\<lambda>c. snd (obj_val c)) (gs_hand gs)),
      evaluateCondition = (\<lambda>c h d. list_ex (\<lambda>x. fst (obj_val x) = obj_val c) h),
      freeCardIsUsable = (\<lambda>gs c. True),
      processFreeCard = (\<lambda>gs c. if draws then drawCard (playCard gs c) else playCard gs c),
      serialiseState = (\<lambda>gs. gs),
      deserializeState = (\<lambda>gs. gs),
      serialiseCondition = obj_val,
      deserialiseCondition = (\<lambda>n sc. Obj n sc)\<rparr>"

text \<open>A world whose only game state object, at address 0, is \<open>gs\<close>.\<close>

definition table_world :: "GameState \<Rightarrow> (GameState, string \<times> bool) world" where
  "table_world gs = \<lparr>cells = (\<lambda>a. gs), fresh = 1, calls = []\<rparr>"

definition cardA :: "(string \<times> bool) obj" where "cardA = Obj 10 (''CardA'', False)"
definition free1 :: "(string \<times> bool) obj" where "free1 = Obj 11 (''Free'', True)"
definition free2 :: "(string \<times> bool) obj" where "free2 = Obj 12 (''Free'', True)"
definition condA :: "string obj" where "condA = Obj 20 ''CardA''"
definition condB :: "string obj" where "condB = Obj 21 ''CardB''"

definition hand_A :: GameState where
  "hand_A = \<lparr>gs_hand = [cardA], gs_deck = [], gs_played = []\<rparr>"

definition hand_free2 :: GameState where
  "hand_free2 = \<lparr>gs_hand = [free1, free2], gs_deck = [], gs_played = []\<rparr>"

definition hand_free_draw :: GameState where
  "hand_free_draw = \<lparr>gs_hand = [free1], gs_deck = [free2, cardA], gs_played = []\<rparr>"

text \<open>A simulation with recorded branches, and a persisted branch, for the examples.\<close>

definition recorded_sim :: "string Simulation" where
  "recorded_sim =
     \<lparr>sim_gameState = 1,
      sim_branches =
        [(condA, [\<lparr>br_gameState = 2, br_result = True, br_condition = condA\<rparr>,
                  \<lparr>br_gameState = 4, br_result = False, br_condition = condA\<rparr>,
                  \<lparr>br_gameState = 6, br_result = False, br_condition = condA\<rparr>]),
         (condB, [\<lparr>br_gameState = 7, br_result = True, br_condition = condB\<rparr>])],
      sim_conditions = [condA, condB]\<rparr>"

definition persisted_branch :: "(GameState, string) SerialisedSimulationBranch" where
  "persisted_branch = \<lparr>sb_result = True, sb_gameState = hand_A, sb_condition = ''CardB''\<rparr>"

definition blank_sim :: "string Simulation" where
  "blank_sim = \<lparr>sim_gameState = 0, sim_branches = [], sim_conditions = [condB]\<rparr>"

definition two_condition_sim :: "string Simulation" where
  "two_condition_sim = \<lparr>sim_gameState = 0, sim_branches = [], sim_conditions = [condA, condB]\<rparr>"

text \<open>A persisted simulation whose two branches carry equal conditions.\<close>

definition persisted_sim :: "(GameState, string) SerialisedSimulation" where
  "persisted_sim =
     \<lparr>ss_gameState = hand_A,
      ss_conditions = [''CardA''],
      ss_branches =
        [\<lparr>sb_result = True, sb_gameState = hand_A, sb_condition = ''CardA''\<rparr>,
         \<lparr>sb_result = False, sb_gameState = hand_A, sb_condition = ''CardA''\<rparr>]\<rparr>"

text \<open>
  The table with a decoder of conditions that interns: the two names it knows decode to
  one object each, whatever the call.
\<close>

definition interning_env :: "(GameState, string, string \<times> bool, GameState, string) env" where
  "interning_env =
     (table_env False)
       \<lparr>deserialiseCondition :=
          (\<lambda>n sc. case map_of [(''CardA'', 30), (''CardB'', 31)] sc of
                     Some r \<Rightarrow> Obj r sc
                   | None \<Rightarrow> Obj n sc)\<rparr>"

text \<open>
  Collaborators with an endless supply: the game state is a number, the hand holds one
  free card whose identity is that number, processing a card gives the next number, and
  no condition ever holds.
\<close>

definition endless_env :: "(nat, string, unit, nat, string) env" where
  "endless_env =
     \<lparr>deepCopyState = (\<lambda>gs. gs),
      hand = (\<lambda>gs. [Obj gs ()]),
      deckList = (\<lambda>gs. []),
      freeCardsInHand = (\<lambda>gs. [Obj gs ()]),
      evaluateCondition = (\<lambda>c h d. False),
      freeCardIsUsable = (\<lambda>gs c. True),
      processFreeCard = (\<lambda>gs c. Suc gs),
      serialiseState = (\<lambda>gs. gs),
      deserializeState = (\<lambda>gs. gs),
      serialiseCondition = obj_val,
      deserialiseCondition = (\<lambda>n sc. Obj n sc)\<rparr>"

section \<open>The result accessors\<close>

lemma find_result_iff: "(case find P bs of None \<Rightarrow> False | Some b \<Rightarrow> P b) = (\<exists>b\<in>set bs. P b)"
  by (induction bs) auto

lemma Simulation_result_any:
  "Simulation_result sim =
     (\<exists>entry\<in>set (sim_branches sim). \<exists>b\<in>set (snd entry). br_result b)"
proof -
  have "Simulation_result sim =
        (\<exists>entry\<in>set (sim_branches sim).
           case find (\<lambda>b. br_result b) (snd entry) of None \<Rightarrow> False | Some b \<Rightarrow> br_result b)"
    by (simp add: Simulation_result_def successfulBranches_def list_ex_iff split_beta)
  then show ?thesis
    by (simp add: find_result_iff)
qed

text \<open>
  Claim C2. The getter \<^verbatim>\<open>result\<close> of a simulation is true exactly when some branch
  recorded under some condition of the branch map has a true result: a disjunction over
  every recorded branch of every entry, not over the branches of one condition.
\<close>

theorem Simulation_result_iff_any_branch:
  "Simulation_result sim =
     (\<exists>entry\<in>set (sim_branches sim). \<exists>b\<in>set (snd entry). br_result b)"
  by (rule Simulation_result_any)

theorem Simulation_result_witness:
  "Simulation_result recorded_sim \<and>
   \<not> Simulation_result (recorded_sim\<lparr>sim_branches := [(condA, []), (condB, [])]\<rparr>)"
proof -
  have "\<exists>entry\<in>set (sim_branches recorded_sim). \<exists>b\<in>set (snd entry). br_result b"
    by (simp add: recorded_sim_def)
  moreover have "\<not> (\<exists>entry\<in>set (sim_branches
       (recorded_sim\<lparr>sim_branches := [(condA, []), (condB, [])]\<rparr>)). \<exists>b\<in>set (snd entry). br_result b)"
    by simp
  ultimately show ?thesis
    unfolding Simulation_result_iff_any_branch by blast
qed

lemma find_first_failing: "first_failing bs (find (\<lambda>b. \<not> br_result b) bs)"
proof (cases "find (\<lambda>b. \<not> br_result b) bs")
  case None
  have "\<forall>x\<in>set bs. br_result x"
    using None by (auto simp: find_None_iff)
  then show ?thesis
    by (simp add: first_failing_def None list_all_iff)
next
  case (Some b)
  then obtain i where i: "i < length bs" "\<not> br_result (bs ! i)" "b = bs ! i"
    "\<forall>j<i. br_result (bs ! j)"
    by (auto simp: find_Some_iff)
  have "bs = take i bs @ b # drop (Suc i) bs"
    using i by (simp add: id_take_nth_drop)
  moreover have "list_all br_result (take i bs)"
    using i by (auto simp: list_all_iff in_set_conv_nth)
  ultimately show ?thesis
    using i Some by (auto simp: first_failing_def)
qed

text \<open>
  Claim C6. \<^verbatim>\<open>failedBranches\<close> has one entry for each entry of the branch map, in
  order and under the same condition, and that entry holds at most one branch: the first
  recorded branch whose result is false, or nothing when every recorded branch of the
  condition succeeded. It is never the list of all failing branches.
\<close>

theorem failedBranches_first_failure:
  "length (failedBranches sim) = length (sim_branches sim) \<and>
   (\<forall>i<length (sim_branches sim).
      fst (failedBranches sim ! i) = fst (sim_branches sim ! i) \<and>
      first_failing (snd (sim_branches sim ! i)) (snd (failedBranches sim ! i)))"
  by (simp add: failedBranches_def split_beta find_first_failing)

theorem failedBranches_witness:
  "length (failedBranches recorded_sim) = 2 \<and>
   first_failing (snd (sim_branches recorded_sim ! 0)) (snd (failedBranches recorded_sim ! 0)) \<and>
   failedBranches recorded_sim =
     [(condA, Some \<lparr>br_gameState = 4, br_result = False, br_condition = condA\<rparr>),
      (condB, None)]"
proof -
  have len: "length (sim_branches recorded_sim) = 2"
    by (simp add: recorded_sim_def)
  have eq: "failedBranches recorded_sim =
     [(condA, Some \<lparr>br_gameState = 4, br_result = False, br_condition = condA\<rparr>),
      (condB, None)]"
    by (simp add: failedBranches_def recorded_sim_def)
  note ff = failedBranches_first_failure [of recorded_sim]
  have "length (failedBranches recorded_sim) = 2"
    using ff len by simp
  moreover have "first_failing (snd (sim_branches recorded_sim ! 0))
                   (snd (failedBranches recorded_sim ! 0))"
    using ff [THEN conjunct2, rule_format, of 0] len by simp
  ultimately show ?thesis
    using eq by simp
qed

section \<open>Deserialising a branch\<close>

text \<open>
  Claim C8. \<^verbatim>\<open>SimulationBranch.deserialise\<close> builds the branch with the constructor,
  on the decoded game state and the decoded condition, so the branch owns a deep copy of
  the decoded state; it then sets the result to the persisted one. The evaluator plays no
  part: replacing it changes nothing, and the result is the persisted value whatever a
  fresh evaluation would give.
\<close>

theorem SimulationBranch_deserialise_result:
  "br_result (fst (SimulationBranch_deserialise E W sb)) = sb_result sb \<and>
   fst (SimulationBranch_deserialise E W sb) =
     (fst (new_SimulationBranch E
             (snd (deserialiseCondition_call E
                     (snd (GameState_deserialize E W (sb_gameState sb))) (sb_condition sb)))
             (fst (GameState_deserialize E W (sb_gameState sb)))
             (fst (deserialiseCondition_call E
                     (snd (GameState_deserialize E W (sb_gameState sb))) (sb_condition sb)))))
       \<lparr>br_result := sb_result sb\<rparr> \<and>
   cells (snd (SimulationBranch_deserialise E W sb))
       (br_gameState (fst (SimulationBranch_deserialise E W sb))) =
     deepCopyState E (deserializeState E (sb_gameState sb)) \<and>
   SimulationBranch_deserialise (E\<lparr>evaluateCondition := ev\<rparr>) W sb =
     SimulationBranch_deserialise E W sb"
  by (simp add: SimulationBranch_deserialise_def GameState_deserialize_def
      deserialiseCondition_call_def new_SimulationBranch_def deepCopy_def)

theorem SimulationBranch_deserialise_witness:
  "br_result (fst (SimulationBranch_deserialise (table_env False) (table_world hand_A)
                     persisted_branch)) = True \<and>
   br_result (run (table_env False)
                (snd (SimulationBranch_deserialise (table_env False) (table_world hand_A)
                        persisted_branch))
                (fst (SimulationBranch_deserialise (table_env False) (table_world hand_A)
                        persisted_branch))) = False"
proof -
  have "sb_result persisted_branch = True"
    by (simp add: persisted_branch_def)
  moreover have "br_result (run (table_env False)
                (snd (SimulationBranch_deserialise (table_env False) (table_world hand_A)
                        persisted_branch))
                (fst (SimulationBranch_deserialise (table_env False) (table_world hand_A)
                        persisted_branch))) = False"
    by code_simp
  ultimately show ?thesis
    using SimulationBranch_deserialise_result
      [of "table_env False" "table_world hand_A" persisted_branch]
    by simp
qed

section \<open>The loop over the conditions\<close>

text \<open>
  Claim C1. The hand holds CardA, the first condition asks for CardA and the second for
  CardB. The baseline branch of the first condition succeeds, and \<^verbatim>\<open>iterate\<close> goes on
  to the second condition all the same: the \<^verbatim>\<open>return\<close> of line 96 ends the callback of
  \<^verbatim>\<open>forEach\<close> for one condition only, so a baseline branch is created, run and
  recorded for the second condition after the simulation has already succeeded.
\<close>

theorem iterate_runs_baseline_of_later_conditions:
  "sim_branches (snd (state_of (runSimulation 1 (table_env False) (table_world hand_A) 0
                                  [condA, condB]))) =
     [(condA, [\<lparr>br_gameState = 2, br_result = True, br_condition = condA\<rparr>]),
      (condB, [\<lparr>br_gameState = 3, br_result = False, br_condition = condB\<rparr>])]"
  by code_simp

section \<open>The free-card search\<close>

subsection \<open>The map\<close>

lemma Map_has_get: "Map_has m k = (Map_get m k \<noteq> None)"
  by (induction m) auto

lemma Map_get_set:
  "Map_get (Map_set m k v) k' = (if obj_id k' = obj_id k then Some v else Map_get m k')"
  by (induction m) auto

lemma Map_get_push:
  "Map_get (Map_push m k b) k' =
     (if obj_id k' = obj_id k then map_option (\<lambda>bs. bs @ [b]) (Map_get m k) else Map_get m k')"
  by (induction m) auto

lemma Map_get_record_branch:
  "Map_get (record_branch m b) k =
     (if obj_id k = obj_id (br_condition b)
      then Some ((case Map_get m (br_condition b) of None \<Rightarrow> [] | Some bs \<Rightarrow> bs) @ [b])
      else Map_get m k)"
  by (auto simp: record_branch_def Map_get_push Map_get_set Map_has_get)

lemma Map_get_same: "obj_id k = obj_id k' \<Longrightarrow> Map_get m k = Map_get m k'"
  by (induction m) auto

lemma record_branch_grows:
  assumes "Map_get m k = Some bs"
  shows "\<exists>more. Map_get (record_branch m b) k = Some (bs @ more)"
proof (cases "obj_id k = obj_id (br_condition b)")
  case True
  then have "Map_get m (br_condition b) = Some bs"
    using assms Map_get_same [of k "br_condition b" m] by simp
  then show ?thesis
    using True by (simp add: Map_get_record_branch)
next
  case False
  then show ?thesis
    using assms by (simp add: Map_get_record_branch)
qed

lemma Map_set_absent: "\<not> Map_has m k \<Longrightarrow> Map_set m k v = m @ [(k, v)]"
  by (induction m) auto

lemma Map_push_last: "\<not> Map_has m k \<Longrightarrow> Map_push (m @ [(k, bs)]) k b = m @ [(k, bs @ [b])]"
  by (induction m) auto

lemma record_branch_absent:
  "\<not> Map_has m (br_condition b) \<Longrightarrow> record_branch m b = m @ [(br_condition b, [b])]"
  by (simp add: record_branch_def Map_set_absent Map_push_last)

lemma Map_has_append: "Map_has (m @ m') k = (Map_has m k \<or> Map_has m' k)"
  by (induction m) auto

lemma runBranch_record:
  "runBranch E W sim b = sim\<lparr>sim_branches := record_branch (sim_branches sim) (run E W b)\<rparr>"
  by (simp add: runBranch_def record_branch_def Let_def)

lemma insert_branch_record:
  "insert_branch sim b = sim\<lparr>sim_branches := record_branch (sim_branches sim) b\<rparr>"
  by (simp add: insert_branch_def record_branch_def Let_def)

lemma run_fields [simp]:
  "br_condition (run E W b) = br_condition b" "br_gameState (run E W b) = br_gameState b"
  by (simp_all add: run_def)

subsection \<open>One pass of the loop\<close>

lemma explore_world:
  "fst (explore E S g c f) =
     (fst S)\<lparr>cells := (cells (fst S))
                (fresh (fst S) := deepCopyState E (cells (fst S) g),
                 Suc (fresh (fst S)) :=
                   processFreeCard E (deepCopyState E (deepCopyState E (cells (fst S) g))) f),
             fresh := Suc (Suc (fresh (fst S)))\<rparr>"
  by (simp add: explore_def deepCopy_def new_SimulationBranch_def processFreeCard_call_def
      Let_def)

lemma explore_sim:
  "snd (explore E S g c f) =
     (snd S)\<lparr>sim_branches := record_branch (sim_branches (snd S))
        (run E (fst (explore E S g c f))
           \<lparr>br_gameState = Suc (fresh (fst S)), br_result = False, br_condition = c\<rparr>)\<rparr>"
  by (simp add: explore_def deepCopy_def new_SimulationBranch_def processFreeCard_call_def
      Let_def runBranch_record)

lemma freeCards_loop_Cons:
  "freeCards_loop n E S g c u d (f # rest) =
     (if \<not> freeCardIsUsable E (cells (fst S) g) f then freeCards_loop n E S g c u d rest
      else if Simulation_result (snd (explore E S g c f)) then Returned (explore E S g c f)
      else
        (case generateFreeCardPermutations n E (explore E S g c f) (Suc (fresh (fst S))) c
                (u @ [f]) (Suc d) of
           DepthExceeded S' \<Rightarrow> DepthExceeded S'
         | Returned S' \<Rightarrow> freeCards_loop n E S' g c u d rest))"
  by (simp add: explore_def deepCopy_def new_SimulationBranch_def Let_def)

lemma extends_refl: "extends S S"
  by (simp add: extends_def)

lemma extends_trans: "extends S S' \<Longrightarrow> extends S' S'' \<Longrightarrow> extends S S''"
  unfolding extends_def
  apply (intro conjI)
       apply linarith
      apply (metis (no_types, lifting) less_le_trans)
     apply (metis append.assoc)
    apply simp
   apply simp
  apply (metis append.assoc)
  done

lemma extends_explore: "extends S (explore E S g c f)"
  by (simp add: extends_def explore_world explore_sim record_branch_grows)

lemma extends_log: "extends S ((fst S)\<lparr>calls := calls (fst S) @ l\<rparr>, snd S)"
  by (simp add: extends_def)

declare freeCards_loop.simps(2) [simp del]
declare generateFreeCardPermutations.simps(2) [simp del]

lemma freeCards_loop_extends:
  assumes gen: "\<And>S g c u d. extends S (state_of (generateFreeCardPermutations n E S g c u d))"
  shows "extends S (state_of (freeCards_loop n E S g c u d fs))"
proof (induction fs arbitrary: S)
  case Nil
  show ?case by (simp add: extends_refl)
next
  case (Cons f rest)
  let ?S1 = "explore E S g c f"
  let ?child = "generateFreeCardPermutations n E ?S1 (Suc (fresh (fst S))) c (u @ [f]) (Suc d)"
  have e1: "extends S ?S1" by (rule extends_explore)
  have e2: "extends S (state_of ?child)"
    using e1 gen by (rule extends_trans)
  show ?case
  proof (cases ?child)
    case (Returned S')
    have "extends S S'" using e2 Returned by simp
    then have "extends S (state_of (freeCards_loop n E S' g c u d rest))"
      using Cons.IH by (rule extends_trans)
    then show ?thesis
      using Returned e1 Cons.IH by (simp add: freeCards_loop_Cons)
  next
    case (DepthExceeded S')
    then show ?thesis
      using e1 e2 Cons.IH by (simp add: freeCards_loop_Cons)
  qed
qed

lemma generateFreeCardPermutations_extends:
  "extends S (state_of (generateFreeCardPermutations n E S g c u d))"
proof (induction n arbitrary: S g c u d)
  case 0
  show ?case by (simp add: extends_refl)
next
  case (Suc n)
  let ?S0 = "((fst S)\<lparr>calls := calls (fst S) @ [(d, u)]\<rparr>, snd S)"
  have e0: "extends S ?S0" by (rule extends_log)
  have "extends ?S0 (state_of (freeCards_loop n E ?S0 g c u d fs))" for fs
    using Suc.IH by (rule freeCards_loop_extends)
  then have "extends S (state_of (freeCards_loop n E ?S0 g c u d fs))" for fs
    using e0 extends_trans by blast
  then show ?case
    using e0 by (simp add: generateFreeCardPermutations.simps(2) Let_def)
qed

lemma iterate_callback_extends: "extends S (state_of (iterate_callback n E S c))"
proof -
  let ?b = "\<lparr>br_gameState = fresh (fst S), br_result = False, br_condition = c\<rparr>"
  let ?W1 = "(fst S)\<lparr>cells := (cells (fst S))
                (fresh (fst S) := deepCopyState E (cells (fst S) (sim_gameState (snd S)))),
             fresh := Suc (fresh (fst S))\<rparr>"
  let ?S1 = "(?W1, runBranch E ?W1 (snd S) ?b)"
  have e1: "extends S ?S1"
    by (simp add: extends_def runBranch_record record_branch_grows)
  have "extends S (state_of (generateFreeCardPermutations n E ?S1 g c [] 0))" for g
    using e1 generateFreeCardPermutations_extends by (rule extends_trans)
  then show ?thesis
    using e1 by (simp add: iterate_callback_def new_SimulationBranch_def deepCopy_def Let_def)
qed

lemma forEach_extends:
  assumes "\<And>S x. extends S (state_of (f S x))"
  shows "extends S (state_of (forEach f S xs))"
proof (induction xs arbitrary: S)
  case Nil
  show ?case by (simp add: extends_refl)
next
  case (Cons x xs)
  show ?case
  proof (cases "f S x")
    case (Returned S')
    have "extends S S'" using assms [of S x] Returned by simp
    then have "extends S (state_of (forEach f S' xs))"
      using Cons.IH by (rule extends_trans)
    then show ?thesis using Returned by simp
  next
    case (DepthExceeded S')
    then show ?thesis using assms [of S x] by simp
  qed
qed

lemma iterate_extends: "extends S (state_of (iterate n E S))"
  unfolding iterate_def by (rule forEach_extends) (rule iterate_callback_extends)

lemma Array_includes_iff: "Array_includes xs x = (obj_id x \<in> obj_id ` set xs)"
  by (auto simp: Array_includes_def list_ex_iff intro: rev_image_eqI)

lemma new_calls_same [simp]: "new_calls W W = []"
  by (simp add: new_calls_def)

lemma new_calls_trans:
  assumes "extends S S'" "extends S' S''"
  shows "new_calls (fst S) (fst S'') = new_calls (fst S) (fst S') @ new_calls (fst S') (fst S'')"
proof -
  obtain l where l: "calls (fst S') = calls (fst S) @ l"
    using assms(1) by (auto simp: extends_def)
  obtain l' where l': "calls (fst S'') = calls (fst S') @ l'"
    using assms(2) by (auto simp: extends_def)
  show ?thesis
    by (simp add: new_calls_def l l')
qed

lemma new_calls_explore [simp]: "new_calls (fst S) (fst (explore E S g c f)) = []"
  by (simp add: new_calls_def explore_world)

lemma call_ok_self: "call_ok d u (Suc n) (d, u)"
  by (simp add: call_ok_def)

lemma call_ok_child:
  assumes "call_ok (Suc d) (u @ [f]) n e" "\<not> Array_includes u f"
  shows "call_ok d u (Suc n) e"
  using assms by (auto simp: call_ok_def Array_includes_iff)

lemma freeCards_loop_calls:
  assumes gen: "\<And>S g c u d.
      \<forall>e\<in>set (new_calls (fst S) (fst (state_of (generateFreeCardPermutations n E S g c u d)))).
        call_ok d u n e"
    and fs: "\<forall>f\<in>set fs. \<not> Array_includes u f"
  shows "\<forall>e\<in>set (new_calls (fst S) (fst (state_of (freeCards_loop n E S g c u d fs)))).
           call_ok d u (Suc n) e"
  using fs
proof (induction fs arbitrary: S)
  case Nil
  show ?case by simp
next
  case (Cons f rest)
  let ?S1 = "explore E S g c f"
  let ?child = "generateFreeCardPermutations n E ?S1 (Suc (fresh (fst S))) c (u @ [f]) (Suc d)"
  have f: "\<not> Array_includes u f" using Cons.prems by simp
  have IH: "\<forall>e\<in>set (new_calls (fst T) (fst (state_of (freeCards_loop n E T g c u d rest)))).
              call_ok d u (Suc n) e" for T
    using Cons.IH Cons.prems by simp
  have e1: "extends S ?S1" by (rule extends_explore)
  have e2: "extends ?S1 (state_of ?child)" by (rule generateFreeCardPermutations_extends)
  have "new_calls (fst S) (fst (state_of ?child)) = new_calls (fst ?S1) (fst (state_of ?child))"
    using new_calls_trans [OF e1 e2] by simp
  then have c1: "\<forall>e\<in>set (new_calls (fst S) (fst (state_of ?child))). call_ok d u (Suc n) e"
    using gen [of ?S1 "Suc (fresh (fst S))" c "u @ [f]" "Suc d"] f call_ok_child by metis
  show ?case
  proof (cases ?child)
    case (Returned S')
    have e3: "extends S S'" using extends_trans [OF e1 e2] Returned by simp
    have e4: "extends S' (state_of (freeCards_loop n E S' g c u d rest))"
      using generateFreeCardPermutations_extends by (rule freeCards_loop_extends)
    have "\<forall>e\<in>set (new_calls (fst S) (fst (state_of (freeCards_loop n E S' g c u d rest)))).
            call_ok d u (Suc n) e"
      using new_calls_trans [OF e3 e4] c1 IH [of S'] Returned by auto
    then show ?thesis
      using Returned IH [of S] by (simp add: freeCards_loop_Cons)
  next
    case (DepthExceeded S')
    then show ?thesis
      using c1 IH [of S] by (simp add: freeCards_loop_Cons)
  qed
qed

lemma generateFreeCardPermutations_calls:
  "\<forall>e\<in>set (new_calls (fst S) (fst (state_of (generateFreeCardPermutations n E S g c u d)))).
     call_ok d u n e"
proof (induction n arbitrary: S g c u d)
  case 0
  show ?case by simp
next
  case (Suc n)
  let ?S0 = "((fst S)\<lparr>calls := calls (fst S) @ [(d, u)]\<rparr>, snd S)"
  let ?fs = "candidates E (cells (fst S) g) u"
  have e0: "extends S ?S0" by (rule extends_log)
  have n0: "new_calls (fst S) (fst ?S0) = [(d, u)]"
    by (simp add: new_calls_def)
  have fs: "\<forall>f\<in>set ?fs. \<not> Array_includes u f"
    by (simp add: candidates_def)
  have e1: "extends ?S0 (state_of (freeCards_loop n E ?S0 g c u d ?fs))"
    using generateFreeCardPermutations_extends by (rule freeCards_loop_extends)
  have "\<forall>e\<in>set (new_calls (fst ?S0) (fst (state_of (freeCards_loop n E ?S0 g c u d ?fs)))).
          call_ok d u (Suc n) e"
    using Suc.IH fs by (rule freeCards_loop_calls)
  then have "\<forall>e\<in>set (new_calls (fst S) (fst (state_of (freeCards_loop n E ?S0 g c u d ?fs)))).
          call_ok d u (Suc n) e"
    using new_calls_trans [OF e0 e1] n0 call_ok_self [of d u n] by auto
  then show ?case
    using n0 call_ok_self [of d u n]
    by (simp add: generateFreeCardPermutations.simps(2) Let_def)
qed

subsection \<open>Termination\<close>

lemma free_supply_member:
  "reaches E gs0 gs \<Longrightarrow> f \<in> set (freeCardsInHand E gs) \<Longrightarrow> obj_id f \<in> free_supply E gs0"
  by (auto simp: free_supply_def)

lemma supply_child:
  assumes "finite (free_supply E gs0)" "reaches E gs0 gs" "f \<in> set (freeCardsInHand E gs)"
    "\<not> Array_includes u f"
  shows "card (free_supply E gs0 - obj_id ` set (u @ [f])) < card (free_supply E gs0 - obj_id ` set u)"
proof -
  have "obj_id f \<in> free_supply E gs0 - obj_id ` set u"
    using assms(2,3,4) by (simp add: free_supply_member Array_includes_iff)
  moreover have "obj_id f \<notin> free_supply E gs0 - obj_id ` set (u @ [f])"
    by simp
  moreover have "free_supply E gs0 - obj_id ` set (u @ [f]) \<subseteq> free_supply E gs0 - obj_id ` set u"
    by auto
  ultimately have "free_supply E gs0 - obj_id ` set (u @ [f]) \<subset> free_supply E gs0 - obj_id ` set u"
    by blast
  then show ?thesis
    using assms(1) by (simp add: psubset_card_mono)
qed

lemma freeCards_loop_returns:
  assumes gen: "\<And>S g c u d. reaches E gs0 (cells (fst S) g) \<Longrightarrow> g < fresh (fst S) \<Longrightarrow>
      card (free_supply E gs0 - obj_id ` set u) < n \<Longrightarrow>
      returned (generateFreeCardPermutations n E S g c u d)"
    and fin: "finite (free_supply E gs0)"
    and r: "reaches E gs0 (cells (fst S) g)"
    and g: "g < fresh (fst S)"
    and m: "card (free_supply E gs0 - obj_id ` set u) \<le> n"
    and fs: "\<forall>f\<in>set fs. f \<in> set (freeCardsInHand E (cells (fst S) g)) \<and> \<not> Array_includes u f"
  shows "returned (freeCards_loop n E S g c u d fs)"
  using r g fs
proof (induction fs arbitrary: S)
  case Nil
  show ?case by simp
next
  case (Cons f rest)
  let ?S1 = "explore E S g c f"
  let ?child = "generateFreeCardPermutations n E ?S1 (Suc (fresh (fst S))) c (u @ [f]) (Suc d)"
  have rest: "returned (freeCards_loop n E S g c u d rest)"
    using Cons by simp
  show ?case
  proof (cases "freeCardIsUsable E (cells (fst S) g) f")
    case False
    then show ?thesis
      using rest by (simp add: freeCards_loop_Cons)
  next
    case True
    have f: "f \<in> set (freeCardsInHand E (cells (fst S) g))" "\<not> Array_includes u f"
      using Cons.prems by simp_all
    have "cells (fst ?S1) (Suc (fresh (fst S))) =
          processFreeCard E (deepCopyState E (deepCopyState E (cells (fst S) g))) f"
      by (simp add: explore_world)
    then have "reaches E gs0 (cells (fst ?S1) (Suc (fresh (fst S))))"
      using reaches.use [OF Cons.prems(1) f(1) True] by simp
    moreover have "Suc (fresh (fst S)) < fresh (fst ?S1)"
      by (simp add: explore_world)
    moreover have "card (free_supply E gs0 - obj_id ` set (u @ [f])) < n"
      using supply_child [OF fin Cons.prems(1) f] m by simp
    ultimately have child: "returned ?child"
      by (rule gen)
    show ?thesis
    proof (cases ?child)
      case (Returned S')
      have "extends S (state_of ?child)"
        by (rule extends_trans [OF extends_explore generateFreeCardPermutations_extends])
      then have "extends S S'"
        using Returned by simp
      then have "g < fresh (fst S')" "cells (fst S') g = cells (fst S) g"
        using Cons.prems(2) by (auto simp: extends_def)
      then have "returned (freeCards_loop n E S' g c u d rest)"
        using Cons.IH [of S'] Cons.prems by simp
      then show ?thesis
        using Returned rest by (simp add: freeCards_loop_Cons)
    next
      case (DepthExceeded S')
      then show ?thesis using child by simp
    qed
  qed
qed

lemma generateFreeCardPermutations_returns:
  assumes fin: "finite (free_supply E gs0)"
  shows "reaches E gs0 (cells (fst S) g) \<Longrightarrow> g < fresh (fst S) \<Longrightarrow>
         card (free_supply E gs0 - obj_id ` set u) < n \<Longrightarrow>
         returned (generateFreeCardPermutations n E S g c u d)"
proof (induction n arbitrary: S g c u d)
  case 0
  then show ?case by simp
next
  case (Suc n)
  let ?S0 = "((fst S)\<lparr>calls := calls (fst S) @ [(d, u)]\<rparr>, snd S)"
  let ?fs = "candidates E (cells (fst S) g) u"
  have "returned (freeCards_loop n E ?S0 g c u d ?fs)"
  proof (rule freeCards_loop_returns [OF _ fin])
    show "reaches E gs0 (cells (fst ?S0) g)" using Suc.prems by simp
    show "g < fresh (fst ?S0)" using Suc.prems by simp
    show "card (free_supply E gs0 - obj_id ` set u) \<le> n" using Suc.prems by simp
    show "\<forall>f\<in>set ?fs. f \<in> set (freeCardsInHand E (cells (fst ?S0) g)) \<and> \<not> Array_includes u f"
      by (auto simp: candidates_def)
  qed (rule Suc.IH)
  then show ?case
    by (simp add: generateFreeCardPermutations.simps(2) Let_def)
qed

lemma no_new_free_cards_reaches:
  assumes "no_new_free_cards E" "reaches E gs0 gs"
  shows "obj_id ` set (freeCardsInHand E gs) \<subseteq> obj_id ` set (freeCardsInHand E gs0)"
  using assms(2)
proof (induction rule: reaches.induct)
  case start
  show ?case by simp
next
  case (use gs freeCard)
  have "obj_id ` set (freeCardsInHand E
           (processFreeCard E (deepCopyState E (deepCopyState E gs)) freeCard))
        \<subseteq> obj_id ` set (freeCardsInHand E gs)"
    using assms(1) by (simp add: no_new_free_cards_def)
  then show ?case
    using use.IH by blast
qed

lemma no_new_free_cards_supply:
  assumes "no_new_free_cards E"
  shows "free_supply E gs0 = obj_id ` set (freeCardsInHand E gs0)"
proof
  show "free_supply E gs0 \<subseteq> obj_id ` set (freeCardsInHand E gs0)"
  proof
    fix i
    assume "i \<in> free_supply E gs0"
    then obtain gs where "reaches E gs0 gs" "i \<in> obj_id ` set (freeCardsInHand E gs)"
      by (auto simp: free_supply_def)
    then show "i \<in> obj_id ` set (freeCardsInHand E gs0)"
      using no_new_free_cards_reaches [OF assms, of gs0 gs] by blast
  qed
  show "obj_id ` set (freeCardsInHand E gs0) \<subseteq> free_supply E gs0"
    using reaches.start [of E gs0] by (auto simp: free_supply_def)
qed

lemma no_new_free_cards_supply_card:
  assumes "no_new_free_cards E"
  shows "finite (free_supply E gs0) \<and> card (free_supply E gs0) \<le> length (freeCardsInHand E gs0)"
proof -
  have "card (obj_id ` set (freeCardsInHand E gs0)) \<le> card (set (freeCardsInHand E gs0))"
    by (simp add: card_image_le)
  also have "\<dots> \<le> length (freeCardsInHand E gs0)"
    by (rule card_length)
  finally show ?thesis
    by (simp add: no_new_free_cards_supply [OF assms])
qed

subsection \<open>A larger budget changes nothing once the search returns\<close>

lemma freeCards_loop_budget:
  assumes gen: "\<And>S g c u d. returned (generateFreeCardPermutations n E S g c u d) \<Longrightarrow>
      generateFreeCardPermutations (Suc n) E S g c u d = generateFreeCardPermutations n E S g c u d"
  shows "returned (freeCards_loop n E S g c u d fs) \<Longrightarrow>
         freeCards_loop (Suc n) E S g c u d fs = freeCards_loop n E S g c u d fs"
proof (induction fs arbitrary: S)
  case Nil
  show ?case by simp
next
  case (Cons f rest)
  let ?S1 = "explore E S g c f"
  let ?child = "generateFreeCardPermutations n E ?S1 (Suc (fresh (fst S))) c (u @ [f]) (Suc d)"
  show ?case
  proof (cases "freeCardIsUsable E (cells (fst S) g) f \<and> \<not> Simulation_result (snd ?S1)")
    case False
    show ?thesis
    proof (cases "freeCardIsUsable E (cells (fst S) g) f")
      case True
      then show ?thesis
        using False by (simp add: freeCards_loop_Cons)
    next
      case False
      then show ?thesis
        using Cons.IH [of S] Cons.prems by (simp add: freeCards_loop_Cons)
    qed
  next
    case True
    show ?thesis
    proof (cases ?child)
      case (Returned S')
      then have "generateFreeCardPermutations (Suc n) E ?S1 (Suc (fresh (fst S))) c (u @ [f]) (Suc d)
                 = Returned S'"
        using gen [of ?S1 "Suc (fresh (fst S))" c "u @ [f]" "Suc d"] by simp
      moreover have "freeCards_loop (Suc n) E S' g c u d rest = freeCards_loop n E S' g c u d rest"
        using Cons.IH [of S'] Cons.prems True Returned by (simp add: freeCards_loop_Cons)
      ultimately show ?thesis
        using True Returned by (simp add: freeCards_loop_Cons)
    next
      case (DepthExceeded S')
      then show ?thesis
        using Cons.prems True by (simp add: freeCards_loop_Cons)
    qed
  qed
qed

lemma generateFreeCardPermutations_budget_Suc:
  "returned (generateFreeCardPermutations n E S g c u d) \<Longrightarrow>
   generateFreeCardPermutations (Suc n) E S g c u d = generateFreeCardPermutations n E S g c u d"
proof (induction n arbitrary: S g c u d)
  case 0
  then show ?case by simp
next
  case (Suc n)
  let ?S0 = "((fst S)\<lparr>calls := calls (fst S) @ [(d, u)]\<rparr>, snd S)"
  let ?fs = "candidates E (cells (fst S) g) u"
  show ?case
  proof (cases "?fs = []")
    case True
    then show ?thesis
      by (simp add: generateFreeCardPermutations.simps(2) Let_def)
  next
    case False
    then have "returned (freeCards_loop n E ?S0 g c u d ?fs)"
      using Suc.prems by (simp add: generateFreeCardPermutations.simps(2) Let_def)
    then have "freeCards_loop (Suc n) E ?S0 g c u d ?fs = freeCards_loop n E ?S0 g c u d ?fs"
      using Suc.IH by (rule freeCards_loop_budget [rotated])
    then show ?thesis
      using False by (simp add: generateFreeCardPermutations.simps(2) Let_def)
  qed
qed

lemma generateFreeCardPermutations_budget:
  assumes "returned (generateFreeCardPermutations n E S g c u d)" "n \<le> m"
  shows "generateFreeCardPermutations m E S g c u d = generateFreeCardPermutations n E S g c u d"
  using assms(2,1)
proof (induction m rule: dec_induct)
  case base
  show ?case by simp
next
  case (step m)
  then show ?case
    using generateFreeCardPermutations_budget_Suc [of m E S g c u d] by simp
qed

lemma table_env_no_new_free_cards: "no_new_free_cards (table_env False)"
  by (auto simp: no_new_free_cards_def table_env_def playCard_def)

subsection \<open>The depth of the search\<close>

lemma depth_bound_supply:
  assumes fin: "finite (free_supply E (cells (fst S) g))" and g: "g < fresh (fst S)"
    and n: "card (free_supply E (cells (fst S) g)) < n"
  shows "returned (generateFreeCardPermutations n E S g c [] 0) \<and>
         (\<forall>e\<in>set (new_calls (fst S)
                     (fst (state_of (generateFreeCardPermutations n E S g c [] 0)))).
            fst e \<le> card (free_supply E (cells (fst S) g)))"
proof -
  let ?k = "card (free_supply E (cells (fst S) g))"
  have k: "returned (generateFreeCardPermutations (Suc ?k) E S g c [] 0)"
    using generateFreeCardPermutations_returns [OF fin reaches.start g, of "[]" "Suc ?k" c 0]
    by simp
  then have eq: "generateFreeCardPermutations n E S g c [] 0 =
             generateFreeCardPermutations (Suc ?k) E S g c [] 0"
    using n by (intro generateFreeCardPermutations_budget) simp_all
  have "\<forall>e\<in>set (new_calls (fst S)
                  (fst (state_of (generateFreeCardPermutations (Suc ?k) E S g c [] 0)))).
          call_ok 0 [] (Suc ?k) e"
    by (rule generateFreeCardPermutations_calls)
  then have "\<forall>e\<in>set (new_calls (fst S)
                  (fst (state_of (generateFreeCardPermutations n E S g c [] 0)))).
          fst e \<le> ?k"
    unfolding eq by (auto simp: call_ok_def)
  then show ?thesis
    using k eq by simp
qed

lemma table_draw_reaches:
  assumes "reaches (table_env True) hand_free_draw gs"
  shows "set (gs_hand gs) \<union> set (gs_deck gs) \<subseteq> {free1, free2, cardA}"
  using assms
proof (induction rule: reaches.induct)
  case start
  show ?case by (simp add: hand_free_draw_def)
next
  case (use gs freeCard)
  then show ?case
    by (cases "gs_deck gs") (auto simp: table_env_def playCard_def drawCard_def)
qed

lemma table_draw_supply:
  "free_supply (table_env True) hand_free_draw \<subseteq> {11, 12}"
proof
  fix i
  assume "i \<in> free_supply (table_env True) hand_free_draw"
  then obtain gs c where gs: "reaches (table_env True) hand_free_draw gs"
    and c: "c \<in> set (freeCardsInHand (table_env True) gs)" "i = obj_id c"
    by (auto simp: free_supply_def)
  have "c \<in> {free1, free2, cardA}" "snd (obj_val c)"
    using table_draw_reaches [OF gs] c(1) by (auto simp: table_env_def)
  then show "i \<in> {11, 12}"
    using c(2) by (auto simp: free1_def free2_def cardA_def)
qed

lemma table_draw_supply_card:
  "finite (free_supply (table_env True) hand_free_draw) \<and>
   card (free_supply (table_env True) hand_free_draw) < 3"
proof -
  have f: "finite (free_supply (table_env True) hand_free_draw)"
    using table_draw_supply by (rule finite_subset) simp
  have "card (free_supply (table_env True) hand_free_draw) \<le> card {11, 12 :: nat}"
    using table_draw_supply by (intro card_mono) simp_all
  then show ?thesis
    using f by simp
qed

text \<open>
  Claim C3, as amended. Let the game state be an allocated object. When its free supply
  is finite, a call of \<^verbatim>\<open>generateFreeCardPermutations\<close> returns under every budget
  above the size of the supply, and no call it makes is nested deeper than that size.
  When the processor never puts a free card into the hand that was not there, the same
  holds with \<open>k\<close>, the number of free cards in the hand, in place of the size of the
  supply. Whatever the collaborators do, \<^verbatim>\<open>usedCards\<close> has one element for each level
  of nesting: every recursive call is made with one more used card than its caller.
\<close>

theorem generateFreeCardPermutations_depth_bound:
  "(finite (free_supply E (cells (fst S) gameState)) \<and> gameState < fresh (fst S) \<longrightarrow>
      (\<forall>n>card (free_supply E (cells (fst S) gameState)).
         returned (generateFreeCardPermutations n E S gameState condition [] 0) \<and>
         (\<forall>e\<in>set (new_calls (fst S)
                     (fst (state_of (generateFreeCardPermutations n E S gameState condition [] 0)))).
            fst e \<le> card (free_supply E (cells (fst S) gameState))))) \<and>
   (no_new_free_cards E \<and> gameState < fresh (fst S) \<longrightarrow>
      (\<forall>n>length (freeCardsInHand E (cells (fst S) gameState)).
         returned (generateFreeCardPermutations n E S gameState condition [] 0) \<and>
         (\<forall>e\<in>set (new_calls (fst S)
                     (fst (state_of (generateFreeCardPermutations n E S gameState condition [] 0)))).
            fst e \<le> length (freeCardsInHand E (cells (fst S) gameState))))) \<and>
   (\<forall>n. \<forall>e\<in>set (new_calls (fst S)
                    (fst (state_of (generateFreeCardPermutations n E S gameState condition [] 0)))).
      length (snd e) = fst e)"
proof (intro conjI)
  show "\<forall>n. \<forall>e\<in>set (new_calls (fst S)
                    (fst (state_of (generateFreeCardPermutations n E S gameState condition [] 0)))).
      length (snd e) = fst e"
  proof (intro allI ballI)
    fix n e
    assume "e \<in> set (new_calls (fst S)
                    (fst (state_of (generateFreeCardPermutations n E S gameState condition [] 0))))"
    then have "call_ok 0 [] n e"
      using generateFreeCardPermutations_calls by blast
    then show "length (snd e) = fst e"
      by (simp add: call_ok_def)
  qed
next
  show "finite (free_supply E (cells (fst S) gameState)) \<and> gameState < fresh (fst S) \<longrightarrow>
      (\<forall>n>card (free_supply E (cells (fst S) gameState)).
         returned (generateFreeCardPermutations n E S gameState condition [] 0) \<and>
         (\<forall>e\<in>set (new_calls (fst S)
                     (fst (state_of (generateFreeCardPermutations n E S gameState condition [] 0)))).
            fst e \<le> card (free_supply E (cells (fst S) gameState))))"
    using depth_bound_supply [of E S gameState _ condition] by blast
next
  let ?k = "length (freeCardsInHand E (cells (fst S) gameState))"
  let ?U = "free_supply E (cells (fst S) gameState)"
  show "no_new_free_cards E \<and> gameState < fresh (fst S) \<longrightarrow>
      (\<forall>n>?k.
         returned (generateFreeCardPermutations n E S gameState condition [] 0) \<and>
         (\<forall>e\<in>set (new_calls (fst S)
                     (fst (state_of (generateFreeCardPermutations n E S gameState condition [] 0)))).
            fst e \<le> ?k))"
  proof (intro impI allI)
    fix n
    assume E: "no_new_free_cards E \<and> gameState < fresh (fst S)" and n: "?k < n"
    have U: "finite ?U" "card ?U \<le> ?k"
      using no_new_free_cards_supply_card [of E "cells (fst S) gameState"] E by simp_all
    then have "card ?U < n" using n by simp
    then have "returned (generateFreeCardPermutations n E S gameState condition [] 0) \<and>
         (\<forall>e\<in>set (new_calls (fst S)
                     (fst (state_of (generateFreeCardPermutations n E S gameState condition [] 0)))).
            fst e \<le> card ?U)"
      using depth_bound_supply [of E S gameState n condition] U(1) E by simp
    then show "returned (generateFreeCardPermutations n E S gameState condition [] 0) \<and>
         (\<forall>e\<in>set (new_calls (fst S)
                     (fst (state_of (generateFreeCardPermutations n E S gameState condition [] 0)))).
            fst e \<le> ?k)"
      using U(2) by fastforce
  qed
qed

theorem generateFreeCardPermutations_depth_bound_witness:
  "finite (free_supply (table_env True) (cells (fst (table_world hand_free_draw, blank_sim)) 0)) \<and>
   card (free_supply (table_env True) (cells (fst (table_world hand_free_draw, blank_sim)) 0)) < 3 \<and>
   returned (generateFreeCardPermutations 3 (table_env True)
               (table_world hand_free_draw, blank_sim) 0 condB [] 0) \<and>
   no_new_free_cards (table_env False) \<and>
   0 < fresh (fst (table_world hand_free_draw, blank_sim)) \<and>
   length (freeCardsInHand (table_env False)
             (cells (fst (table_world hand_free_draw, blank_sim)) 0)) = 1 \<and>
   returned (generateFreeCardPermutations 2 (table_env False)
               (table_world hand_free_draw, blank_sim) 0 condB [] 0) \<and>
   calls (fst (state_of (generateFreeCardPermutations 2 (table_env False)
                           (table_world hand_free_draw, blank_sim) 0 condB [] 0))) =
     [(0, []), (1, [free1])]"
proof -
  have c0: "cells (fst (table_world hand_free_draw, blank_sim)) 0 = hand_free_draw"
    by (simp add: table_world_def)
  have s: "finite (free_supply (table_env True)
                     (cells (fst (table_world hand_free_draw, blank_sim)) 0))"
    "card (free_supply (table_env True)
             (cells (fst (table_world hand_free_draw, blank_sim)) 0)) < 3"
    unfolding c0 using table_draw_supply_card by simp_all
  have h1: "no_new_free_cards (table_env False)"
    by (rule table_env_no_new_free_cards)
  have h2: "0 < fresh (fst (table_world hand_free_draw, blank_sim))"
    by (simp add: table_world_def)
  have k: "length (freeCardsInHand (table_env False)
                     (cells (fst (table_world hand_free_draw, blank_sim)) 0)) = 1"
    by code_simp
  note t = generateFreeCardPermutations_depth_bound
    [where gameState = 0 and S = "(table_world hand_free_draw, blank_sim)" and condition = condB]
  have r3: "returned (generateFreeCardPermutations 3 (table_env True)
                    (table_world hand_free_draw, blank_sim) 0 condB [] 0)"
    using t [where E = "table_env True", THEN conjunct1, rule_format, of 3] s h2 by simp
  have r2: "returned (generateFreeCardPermutations 2 (table_env False)
                    (table_world hand_free_draw, blank_sim) 0 condB [] 0)"
    using t [where E = "table_env False", THEN conjunct2, THEN conjunct1, rule_format, of 2] h1 h2 k
    by simp
  have l: "calls (fst (state_of (generateFreeCardPermutations 2 (table_env False)
                           (table_world hand_free_draw, blank_sim) 0 condB [] 0))) =
     [(0, []), (1, [free1])]"
    by code_simp
  show ?thesis
    using s h1 h2 k r3 r2 l by (intro conjI)
qed

text \<open>
  Claim C3 as stated fails when the processor draws: the hand holds one free card, using
  it draws a second free card, and the search nests to depth 2. A budget of two nested
  calls is exceeded, and under a budget of three a call at depth 2 is logged.
\<close>

theorem depth_exceeds_free_cards_when_processor_draws:
  "length (freeCardsInHand (table_env True)
             (cells (fst (table_world hand_free_draw, blank_sim)) 0)) = 1 \<and>
   \<not> returned (generateFreeCardPermutations (Suc 1) (table_env True)
                 (table_world hand_free_draw, blank_sim) 0 condB [] 0) \<and>
   (2, [free1, free2]) \<in>
     set (new_calls (fst (table_world hand_free_draw, blank_sim))
            (fst (state_of (generateFreeCardPermutations 3 (table_env True)
                              (table_world hand_free_draw, blank_sim) 0 condB [] 0))))"
  by code_simp

subsection \<open>The calls of a whole iteration\<close>

lemma new_calls_cong: "calls W1 = calls W \<Longrightarrow> new_calls W1 W' = new_calls W W'"
  by (simp add: new_calls_def)

lemma iterate_callback_calls:
  "\<forall>e\<in>set (new_calls (fst S) (fst (state_of (iterate_callback n E S c)))). call_ok 0 [] n e"
proof -
  let ?b = "\<lparr>br_gameState = fresh (fst S), br_result = False, br_condition = c\<rparr>"
  let ?W1 = "(fst S)\<lparr>cells := (cells (fst S))
                (fresh (fst S) := deepCopyState E (cells (fst S) (sim_gameState (snd S)))),
             fresh := Suc (fresh (fst S))\<rparr>"
  let ?S1 = "(?W1, runBranch E ?W1 (snd S) ?b)"
  have "new_calls (fst S) W' = new_calls (fst ?S1) W'" for W'
    by (simp add: new_calls_def)
  then have "\<forall>e\<in>set (new_calls (fst S)
                 (fst (state_of (generateFreeCardPermutations n E ?S1 g c [] 0)))).
               call_ok 0 [] n e" for g
    using generateFreeCardPermutations_calls [of ?S1 n E g c "[]" 0] by simp
  then show ?thesis
    by (simp add: iterate_callback_def new_SimulationBranch_def deepCopy_def Let_def new_calls_def)
qed

lemma forEach_calls:
  assumes ext: "\<And>S x. extends S (state_of (f S x))"
    and P: "\<And>S x. \<forall>e\<in>set (new_calls (fst S) (fst (state_of (f S x)))). P e"
  shows "\<forall>e\<in>set (new_calls (fst S) (fst (state_of (forEach f S xs)))). P e"
proof (induction xs arbitrary: S)
  case Nil
  show ?case by simp
next
  case (Cons x xs)
  show ?case
  proof (cases "f S x")
    case (Returned S')
    have e1: "extends S S'" using ext [of S x] Returned by simp
    have e2: "extends S' (state_of (forEach f S' xs))"
      using ext by (rule forEach_extends)
    have "\<forall>e\<in>set (new_calls (fst S) (fst S')). P e"
      using P [of S x] Returned by simp
    then have "\<forall>e\<in>set (new_calls (fst S) (fst (state_of (forEach f S' xs)))). P e"
      using new_calls_trans [OF e1 e2] Cons.IH [of S'] by auto
    then show ?thesis using Returned by simp
  next
    case (DepthExceeded S')
    then show ?thesis using P [of S x] by simp
  qed
qed

lemma iterate_calls:
  "\<forall>e\<in>set (new_calls (fst S) (fst (state_of (iterate n E S)))). call_ok 0 [] n e"
  unfolding iterate_def
  by (rule forEach_calls) (rule iterate_callback_extends, rule iterate_callback_calls)

lemma set_candidates:
  "set (candidates E gs u) =
     {k \<in> set (freeCardsInHand E gs). freeCardIsUsable E gs k \<and> obj_id k \<notin> obj_id ` set u}"
  by (auto simp: candidates_def Array_includes_iff)

text \<open>
  Claim C4. Every call of \<^verbatim>\<open>generateFreeCardPermutations\<close> that descends from a call
  whose \<^verbatim>\<open>usedCards\<close> hold no card twice (by identity) is itself made with
  \<^verbatim>\<open>usedCards\<close> that hold no card twice; so it is for every call made during
  \<^verbatim>\<open>iterate\<close>, which starts each search with no used cards. The candidates of a call
  are the usable free cards in hand whose identity is not that of a used card: a card
  equal in content to a used card but of another identity is a candidate.
\<close>

theorem usedCards_hold_no_card_twice:
  "(distinct (map obj_id usedCards) \<longrightarrow>
      (\<forall>e\<in>set (new_calls (fst S)
                  (fst (state_of (generateFreeCardPermutations n E S gameState condition
                                    usedCards depth)))).
         distinct (map obj_id (snd e)))) \<and>
   (\<forall>e\<in>set (new_calls (fst S) (fst (state_of (iterate n E S)))).
      distinct (map obj_id (snd e))) \<and>
   set (candidates E gs usedCards) =
     {k \<in> set (freeCardsInHand E gs).
        freeCardIsUsable E gs k \<and> obj_id k \<notin> obj_id ` set usedCards} \<and>
   (\<forall>k used. used \<in> set usedCards \<and> obj_val k = obj_val used \<and>
        obj_id k \<notin> obj_id ` set usedCards \<and>
        k \<in> set (freeCardsInHand E gs) \<and> freeCardIsUsable E gs k \<longrightarrow>
        k \<in> set (candidates E gs usedCards))"
proof (intro conjI impI allI ballI)
  fix e
  assume "distinct (map obj_id usedCards)"
    and "e \<in> set (new_calls (fst S)
                  (fst (state_of (generateFreeCardPermutations n E S gameState condition
                                    usedCards depth))))"
  then show "distinct (map obj_id (snd e))"
    using generateFreeCardPermutations_calls [of S n E gameState condition usedCards depth]
    by (auto simp: call_ok_def)
next
  fix e
  assume "e \<in> set (new_calls (fst S) (fst (state_of (iterate n E S))))"
  then show "distinct (map obj_id (snd e))"
    using iterate_calls [of S n E] by (auto simp: call_ok_def)
next
  show "set (candidates E gs usedCards) =
     {k \<in> set (freeCardsInHand E gs).
        freeCardIsUsable E gs k \<and> obj_id k \<notin> obj_id ` set usedCards}"
    by (rule set_candidates)
next
  fix k used
  assume "used \<in> set usedCards \<and> obj_val k = obj_val used \<and>
        obj_id k \<notin> obj_id ` set usedCards \<and>
        k \<in> set (freeCardsInHand E gs) \<and> freeCardIsUsable E gs k"
  then show "k \<in> set (candidates E gs usedCards)"
    by (simp add: set_candidates)
qed

theorem usedCards_hold_no_card_twice_witness:
  "distinct (map obj_id [free1]) \<and>
   (2, [free1, free2]) \<in>
     set (new_calls (fst (table_world hand_free_draw, blank_sim))
            (fst (state_of (generateFreeCardPermutations 3 (table_env True)
                              (table_world hand_free_draw, blank_sim) 0 condB [] 0)))) \<and>
   distinct (map obj_id (snd (2 :: nat, [free1, free2]))) \<and>
   obj_val free2 = obj_val free1 \<and>
   candidates (table_env False) hand_free2 [free1] = [free2] \<and>
   free2 \<in> set (candidates (table_env False) hand_free2 [free1])"
proof -
  have m: "(2, [free1, free2]) \<in>
     set (new_calls (fst (table_world hand_free_draw, blank_sim))
            (fst (state_of (generateFreeCardPermutations 3 (table_env True)
                              (table_world hand_free_draw, blank_sim) 0 condB [] 0))))"
    by code_simp
  have d0: "distinct (map obj_id ([] :: (string \<times> bool) obj list))"
    by simp
  note t = usedCards_hold_no_card_twice
    [of "[]" "(table_world hand_free_draw, blank_sim)" 3 "table_env True" 0 condB 0 hand_free2]
  have d: "distinct (map obj_id (snd (2 :: nat, [free1, free2])))"
    using t [THEN conjunct1, rule_format, OF d0 m] .
  have pre: "free1 \<in> set [free1] \<and> obj_val free2 = obj_val free1 \<and>
        obj_id free2 \<notin> obj_id ` set [free1] \<and>
        free2 \<in> set (freeCardsInHand (table_env False) hand_free2) \<and>
        freeCardIsUsable (table_env False) hand_free2 free2"
    by (simp add: free1_def free2_def table_env_def hand_free2_def)
  have c: "free2 \<in> set (candidates (table_env False) hand_free2 [free1])"
    using usedCards_hold_no_card_twice
      [of "[free1]" _ _ "table_env False" _ _ _ hand_free2,
        THEN conjunct2, THEN conjunct2, THEN conjunct2, rule_format, OF pre] .
  have "candidates (table_env False) hand_free2 [free1] = [free2]"
    by code_simp
  then show ?thesis
    using m d c pre by simp
qed

subsection \<open>What iterate records\<close>

lemma extends_nonempty:
  assumes "extends S S'" "Map_get (sim_branches (snd S)) c = Some bs" "bs \<noteq> []"
  shows "\<exists>bs'. Map_get (sim_branches (snd S')) c = Some bs' \<and> bs' \<noteq> []"
  using assms by (fastforce simp: extends_def)

lemma iterate_callback_baseline:
  "\<exists>S1. extends S S1 \<and> extends S1 (state_of (iterate_callback n E S c)) \<and>
        Map_get (sim_branches (snd S1)) c =
          Some ((case Map_get (sim_branches (snd S)) c of None \<Rightarrow> [] | Some bs \<Rightarrow> bs) @
                [run E (fst S1)
                   \<lparr>br_gameState = fresh (fst S), br_result = False, br_condition = c\<rparr>]) \<and>
        fst S1 = (fst S)\<lparr>cells := (cells (fst S))
                   (fresh (fst S) := deepCopyState E (cells (fst S) (sim_gameState (snd S)))),
                 fresh := Suc (fresh (fst S))\<rparr> \<and>
        (Simulation_result (snd S1) \<longrightarrow> iterate_callback n E S c = Returned S1) \<and>
        (\<not> Simulation_result (snd S1) \<longrightarrow>
           iterate_callback n E S c =
             generateFreeCardPermutations n E S1 (sim_gameState (snd S)) c [] 0)"
proof -
  let ?b = "\<lparr>br_gameState = fresh (fst S), br_result = False, br_condition = c\<rparr>"
  let ?W1 = "(fst S)\<lparr>cells := (cells (fst S))
                (fresh (fst S) := deepCopyState E (cells (fst S) (sim_gameState (snd S)))),
             fresh := Suc (fresh (fst S))\<rparr>"
  let ?S1 = "(?W1, runBranch E ?W1 (snd S) ?b)"
  have e1: "extends S ?S1"
    by (simp add: extends_def runBranch_record record_branch_grows)
  have e2: "extends ?S1 (state_of (iterate_callback n E S c))"
    using generateFreeCardPermutations_extends [of ?S1 n E "sim_gameState (snd S)" c "[]" 0]
    by (simp add: iterate_callback_def new_SimulationBranch_def deepCopy_def Let_def
        extends_refl runBranch_record)
  have g: "Map_get (sim_branches (snd ?S1)) c =
          Some ((case Map_get (sim_branches (snd S)) c of None \<Rightarrow> [] | Some bs \<Rightarrow> bs) @
                [run E (fst ?S1) ?b])"
    by (simp add: runBranch_record Map_get_record_branch)
  have r1: "Simulation_result (snd ?S1) \<longrightarrow> iterate_callback n E S c = Returned ?S1"
    by (simp add: iterate_callback_def new_SimulationBranch_def deepCopy_def Let_def)
  have r2: "\<not> Simulation_result (snd ?S1) \<longrightarrow>
           iterate_callback n E S c =
             generateFreeCardPermutations n E ?S1 (sim_gameState (snd S)) c [] 0"
    by (simp add: iterate_callback_def new_SimulationBranch_def deepCopy_def Let_def
        runBranch_record)
  show ?thesis
    using e1 e2 g r1 r2 by (intro exI [of _ ?S1]) simp
qed

lemma iterate_callback_records:
  "\<exists>bs. Map_get (sim_branches (snd (state_of (iterate_callback n E S c)))) c = Some bs \<and> bs \<noteq> []"
proof -
  obtain S1 where e: "extends S1 (state_of (iterate_callback n E S c))"
    and g: "Map_get (sim_branches (snd S1)) c =
          Some ((case Map_get (sim_branches (snd S)) c of None \<Rightarrow> [] | Some bs \<Rightarrow> bs) @
                [run E (fst S1)
                   \<lparr>br_gameState = fresh (fst S), br_result = False, br_condition = c\<rparr>])"
    using iterate_callback_baseline [of S n E c] by blast
  show ?thesis
    using extends_nonempty [OF e g] by simp
qed

lemma forEach_records:
  assumes ext: "\<And>S x. extends S (state_of (f S x))"
    and rec: "\<And>S x. \<exists>bs. Map_get (sim_branches (snd (state_of (f S x)))) x = Some bs \<and> bs \<noteq> []"
  shows "returned (forEach f S xs) \<Longrightarrow>
         \<forall>c\<in>set xs. \<exists>bs. Map_get (sim_branches (snd (state_of (forEach f S xs)))) c = Some bs \<and>
                          bs \<noteq> []"
proof (induction xs arbitrary: S)
  case Nil
  show ?case by simp
next
  case (Cons x xs)
  show ?case
  proof (cases "f S x")
    case (Returned S')
    have fin: "forEach f S (x # xs) = forEach f S' xs"
      using Returned by simp
    have e2: "extends S' (state_of (forEach f S' xs))"
      using ext by (rule forEach_extends)
    obtain bs where "Map_get (sim_branches (snd S')) x = Some bs" "bs \<noteq> []"
      using rec [of S x] Returned by auto
    then have x: "\<exists>bs. Map_get (sim_branches (snd (state_of (forEach f S' xs)))) x = Some bs \<and>
                       bs \<noteq> []"
      using e2 extends_nonempty by blast
    have "returned (forEach f S' xs)"
      using Cons.prems fin by simp
    then have "\<forall>c\<in>set xs. \<exists>bs. Map_get (sim_branches (snd (state_of (forEach f S' xs)))) c =
                              Some bs \<and> bs \<noteq> []"
      by (rule Cons.IH)
    then show ?thesis
      using x fin by simp
  next
    case (DepthExceeded S')
    then show ?thesis using Cons.prems by simp
  qed
qed

lemma no_free_cards_callback:
  assumes "freeCardsInHand E (cells (fst S) (sim_gameState (snd S))) = []"
    and "sim_gameState (snd S) < fresh (fst S)"
  shows "\<exists>b. Map_get (sim_branches (snd (state_of (iterate_callback n E S c)))) c =
           Some ((case Map_get (sim_branches (snd S)) c of None \<Rightarrow> [] | Some bs \<Rightarrow> bs) @ [b])"
proof -
  obtain S1 where S1: "Map_get (sim_branches (snd S1)) c =
          Some ((case Map_get (sim_branches (snd S)) c of None \<Rightarrow> [] | Some bs \<Rightarrow> bs) @
                [run E (fst S1)
                   \<lparr>br_gameState = fresh (fst S), br_result = False, br_condition = c\<rparr>])"
     and W1: "fst S1 = (fst S)\<lparr>cells := (cells (fst S))
                   (fresh (fst S) := deepCopyState E (cells (fst S) (sim_gameState (snd S)))),
                 fresh := Suc (fresh (fst S))\<rparr>"
     and r1: "Simulation_result (snd S1) \<longrightarrow> iterate_callback n E S c = Returned S1"
     and r2: "\<not> Simulation_result (snd S1) \<longrightarrow>
           iterate_callback n E S c =
             generateFreeCardPermutations n E S1 (sim_gameState (snd S)) c [] 0"
    using iterate_callback_baseline [of S n E c] by blast
  have "cells (fst S1) (sim_gameState (snd S)) = cells (fst S) (sim_gameState (snd S))"
    using assms(2) W1 by simp
  then have "candidates E (cells (fst S1) (sim_gameState (snd S))) [] = []"
    using assms(1) by (simp add: candidates_def)
  then have "snd (state_of (generateFreeCardPermutations n E S1 (sim_gameState (snd S)) c [] 0))
             = snd S1"
    by (cases n) (simp_all add: generateFreeCardPermutations.simps(2) Let_def)
  then have "snd (state_of (iterate_callback n E S c)) = snd S1"
    using r1 r2 by (cases "Simulation_result (snd S1)") simp_all
  then show ?thesis
    using S1 by simp
qed

text \<open>
  Claim C5. When \<^verbatim>\<open>iterate\<close> has returned, every condition of the simulation has a
  non-empty list of branches in the branch map. \<^verbatim>\<open>iterate\<close> and \<^verbatim>\<open>runBranch\<close> only
  append: the branches a condition had before are a prefix of those it has after. With
  no free card in the baseline hand, the pass for a condition not yet in the map leaves
  exactly one branch, the baseline one.
\<close>

theorem iterate_records_every_condition:
  "(returned (iterate n E S) \<longrightarrow>
      (\<forall>c\<in>set (sim_conditions (snd S)).
         \<exists>bs. Map_get (sim_branches (snd (state_of (iterate n E S)))) c = Some bs \<and> bs \<noteq> [])) \<and>
   (\<forall>c bs. Map_get (sim_branches (snd S)) c = Some bs \<longrightarrow>
      (\<exists>more. Map_get (sim_branches (snd (state_of (iterate n E S)))) c = Some (bs @ more))) \<and>
   (\<forall>c bs. Map_get (sim_branches sim) c = Some bs \<longrightarrow>
      (\<exists>more. Map_get (sim_branches (runBranch E W sim branch)) c = Some (bs @ more))) \<and>
   (freeCardsInHand E (cells (fst S) (sim_gameState (snd S))) = [] \<and>
    sim_gameState (snd S) < fresh (fst S) \<and> Map_get (sim_branches (snd S)) condition = None \<longrightarrow>
      (\<exists>b. Map_get (sim_branches (snd (state_of (iterate_callback n E S condition)))) condition =
             Some [b]))"
proof (intro conjI impI allI)
  assume "returned (iterate n E S)"
  then show "\<forall>c\<in>set (sim_conditions (snd S)).
         \<exists>bs. Map_get (sim_branches (snd (state_of (iterate n E S)))) c = Some bs \<and> bs \<noteq> []"
    unfolding iterate_def
    by (rule forEach_records [rotated 2])
      (rule iterate_callback_extends, rule iterate_callback_records)
next
  fix c bs
  assume "Map_get (sim_branches (snd S)) c = Some bs"
  then show "\<exists>more. Map_get (sim_branches (snd (state_of (iterate n E S)))) c = Some (bs @ more)"
    using iterate_extends [of S n E] by (simp add: extends_def)
next
  fix c bs
  assume "Map_get (sim_branches sim) c = Some bs"
  then show "\<exists>more. Map_get (sim_branches (runBranch E W sim branch)) c = Some (bs @ more)"
    by (simp add: runBranch_record record_branch_grows)
next
  assume "freeCardsInHand E (cells (fst S) (sim_gameState (snd S))) = [] \<and>
    sim_gameState (snd S) < fresh (fst S) \<and> Map_get (sim_branches (snd S)) condition = None"
  then show "\<exists>b. Map_get (sim_branches (snd (state_of (iterate_callback n E S condition))))
                    condition = Some [b]"
    using no_free_cards_callback [of E S n condition] by simp
qed

theorem iterate_records_every_condition_witness:
  "returned (iterate 1 (table_env False) (table_world hand_A, two_condition_sim)) \<and>
   condB \<in> set (sim_conditions (snd (table_world hand_A, two_condition_sim))) \<and>
   (\<exists>bs. Map_get (sim_branches (snd (state_of
             (iterate 1 (table_env False) (table_world hand_A, two_condition_sim))))) condB =
           Some bs \<and> bs \<noteq> [])"
proof -
  have r: "returned (iterate 1 (table_env False) (table_world hand_A, two_condition_sim))"
    by code_simp
  have c: "condB \<in> set (sim_conditions (snd (table_world hand_A, two_condition_sim)))"
    by (simp add: two_condition_sim_def)
  have "\<exists>bs. Map_get (sim_branches (snd (state_of
             (iterate 1 (table_env False) (table_world hand_A, two_condition_sim))))) condB =
           Some bs \<and> bs \<noteq> []"
    using iterate_records_every_condition
      [of 1 "table_env False" "(table_world hand_A, two_condition_sim)",
        THEN conjunct1, rule_format, OF r c] .
  then show ?thesis
    using r c by simp
qed

subsection \<open>Isolation of the caller's game state\<close>

lemma iterate_frame:
  "a < fresh (fst S) \<Longrightarrow> cells (fst (state_of (iterate n E S))) a = cells (fst S) a"
  using iterate_extends [of S n E] by (simp add: extends_def)

text \<open>
  Claim C9. Let the caller's game state be an allocated object. The constructor of
  \<^verbatim>\<open>SimulationBranch\<close> gives the branch a game state object of its own, holding the
  deep copy, and stores the very condition object it is given; a later write to the
  caller's object does not reach the branch, and the processor, applied to the branch,
  does not reach the caller's object. The constructor of \<^verbatim>\<open>Simulation\<close> likewise
  takes a copy. \<^verbatim>\<open>runSimulation\<close> and \<^verbatim>\<open>iterate\<close> leave the caller's object as it
  was, under every budget and whether or not the search returns.
\<close>

theorem constructors_isolate_caller_state:
  "caller < fresh W \<longrightarrow>
     br_gameState (fst (new_SimulationBranch E W caller c)) \<noteq> caller \<and>
     br_condition (fst (new_SimulationBranch E W caller c)) = c \<and>
     cells (snd (new_SimulationBranch E W caller c))
         (br_gameState (fst (new_SimulationBranch E W caller c))) =
       deepCopyState E (cells W caller) \<and>
     cells (snd (new_SimulationBranch E W caller c)) caller = cells W caller \<and>
     (\<forall>v. cells ((snd (new_SimulationBranch E W caller c))
                   \<lparr>cells := (cells (snd (new_SimulationBranch E W caller c)))(caller := v)\<rparr>)
              (br_gameState (fst (new_SimulationBranch E W caller c))) =
            deepCopyState E (cells W caller)) \<and>
     (\<forall>f. cells (processFreeCard_call E (snd (new_SimulationBranch E W caller c))
                   (fst (new_SimulationBranch E W caller c)) f) caller = cells W caller) \<and>
     sim_gameState (fst (new_Simulation E W caller cs)) \<noteq> caller \<and>
     sim_conditions (fst (new_Simulation E W caller cs)) = cs \<and>
     cells (snd (new_Simulation E W caller cs)) (sim_gameState (fst (new_Simulation E W caller cs))) =
       deepCopyState E (cells W caller) \<and>
     cells (snd (new_Simulation E W caller cs)) caller = cells W caller \<and>
     (\<forall>n. cells (fst (state_of (runSimulation n E W caller cs))) caller = cells W caller) \<and>
     (\<forall>n sim. cells (fst (state_of (iterate n E (W, sim)))) caller = cells W caller)"
proof (intro impI conjI allI)
  assume a: "caller < fresh W"
  show "br_gameState (fst (new_SimulationBranch E W caller c)) \<noteq> caller"
    using a by (simp add: new_SimulationBranch_def deepCopy_def)
  show "br_condition (fst (new_SimulationBranch E W caller c)) = c"
    by (simp add: new_SimulationBranch_def deepCopy_def)
  show "cells (snd (new_SimulationBranch E W caller c))
         (br_gameState (fst (new_SimulationBranch E W caller c))) =
       deepCopyState E (cells W caller)"
    by (simp add: new_SimulationBranch_def deepCopy_def)
  show "cells (snd (new_SimulationBranch E W caller c)) caller = cells W caller"
    using a by (simp add: new_SimulationBranch_def deepCopy_def)
  show "cells ((snd (new_SimulationBranch E W caller c))
                   \<lparr>cells := (cells (snd (new_SimulationBranch E W caller c)))(caller := v)\<rparr>)
              (br_gameState (fst (new_SimulationBranch E W caller c))) =
            deepCopyState E (cells W caller)" for v
    using a by (simp add: new_SimulationBranch_def deepCopy_def)
  show "cells (processFreeCard_call E (snd (new_SimulationBranch E W caller c))
                   (fst (new_SimulationBranch E W caller c)) f) caller = cells W caller" for f
    using a by (simp add: new_SimulationBranch_def deepCopy_def processFreeCard_call_def)
  show "sim_gameState (fst (new_Simulation E W caller cs)) \<noteq> caller"
    using a by (simp add: new_Simulation_def deepCopy_def)
  show "sim_conditions (fst (new_Simulation E W caller cs)) = cs"
    by (simp add: new_Simulation_def deepCopy_def)
  show "cells (snd (new_Simulation E W caller cs))
          (sim_gameState (fst (new_Simulation E W caller cs))) =
       deepCopyState E (cells W caller)"
    by (simp add: new_Simulation_def deepCopy_def)
  show "cells (snd (new_Simulation E W caller cs)) caller = cells W caller"
    using a by (simp add: new_Simulation_def deepCopy_def)
  show "cells (fst (state_of (runSimulation n E W caller cs))) caller = cells W caller" for n
  proof -
    let ?W' = "W\<lparr>cells := (cells W)(fresh W := deepCopyState E (cells W caller)),
                 fresh := Suc (fresh W)\<rparr>"
    let ?sim = "\<lparr>sim_gameState = fresh W, sim_branches = [], sim_conditions = cs\<rparr>"
    have "cells (fst (state_of (iterate n E (?W', ?sim)))) caller = cells (fst (?W', ?sim)) caller"
      using a by (intro iterate_frame) simp
    then show ?thesis
      using a by (simp add: runSimulation_def new_Simulation_def deepCopy_def)
  qed
  show "cells (fst (state_of (iterate n E (W, sim)))) caller = cells W caller" for n sim
    using a iterate_frame [of caller "(W, sim)" n E] by simp
qed

theorem constructors_isolate_caller_state_witness:
  "0 < fresh (table_world hand_free_draw) \<and>
   cells (fst (state_of (runSimulation 2 (table_env False) (table_world hand_free_draw) 0 [condB])))
     0 = cells (table_world hand_free_draw) 0 \<and>
   gs_played (cells (fst (state_of
       (runSimulation 2 (table_env False) (table_world hand_free_draw) 0 [condB]))) 4) = [free1] \<and>
   gs_played (cells (table_world hand_free_draw) 0) = []"
proof -
  have a: "0 < fresh (table_world hand_free_draw)"
    by (simp add: table_world_def)
  have "cells (fst (state_of
          (runSimulation 2 (table_env False) (table_world hand_free_draw) 0 [condB]))) 0 =
        cells (table_world hand_free_draw) 0"
    using constructors_isolate_caller_state
      [of 0 "table_world hand_free_draw" "table_env False" condB "[condB]", rule_format, OF a]
    by simp
  moreover have "gs_played (cells (fst (state_of
       (runSimulation 2 (table_env False) (table_world hand_free_draw) 0 [condB]))) 4) = [free1]"
    by code_simp
  moreover have "gs_played (cells (table_world hand_free_draw) 0) = []"
    by code_simp
  ultimately show ?thesis
    using a by simp
qed

section \<open>Serialisation and deserialisation of a simulation\<close>

subsection \<open>Filing branches\<close>



lemma insert_branch_fields [simp]:
  "sim_gameState (insert_branch sim b) = sim_gameState sim"
  "sim_conditions (insert_branch sim b) = sim_conditions sim"
  by (simp_all add: insert_branch_record)

lemma foldl_insert_branch_fields [simp]:
  "sim_gameState (foldl insert_branch sim bs) = sim_gameState sim"
  "sim_conditions (foldl insert_branch sim bs) = sim_conditions sim"
  by (induction bs arbitrary: sim) simp_all

lemma foldl_insert_branch_conditions:
  "sim_branches (foldl insert_branch (sim\<lparr>sim_conditions := cs\<rparr>) bs) =
   sim_branches (foldl insert_branch sim bs)"
proof (induction bs arbitrary: sim)
  case Nil
  show ?case by simp
next
  case (Cons b bs)
  have "insert_branch (sim\<lparr>sim_conditions := cs\<rparr>) b = (insert_branch sim b)\<lparr>sim_conditions := cs\<rparr>"
    by (simp add: insert_branch_record)
  then show ?case
    using Cons.IH [of "insert_branch sim b"] by simp
qed

lemma foldl_insert_branch_distinct:
  assumes "distinct (map (\<lambda>b. obj_id (br_condition b)) bs)"
    and "\<forall>b\<in>set bs. \<not> Map_has (sim_branches sim) (br_condition b)"
  shows "sim_branches (foldl insert_branch sim bs) =
         sim_branches sim @ map (\<lambda>b. (br_condition b, [b])) bs"
  using assms
proof (induction bs arbitrary: sim)
  case Nil
  show ?case by simp
next
  case (Cons b bs)
  have b: "sim_branches (insert_branch sim b) = sim_branches sim @ [(br_condition b, [b])]"
    using Cons.prems by (simp add: insert_branch_record record_branch_absent)
  have "\<forall>x\<in>set bs. \<not> Map_has (sim_branches (insert_branch sim b)) (br_condition x)"
    using Cons.prems by (auto simp: b Map_has_append)
  then have "sim_branches (foldl insert_branch (insert_branch sim b) bs) =
             sim_branches (insert_branch sim b) @ map (\<lambda>b. (br_condition b, [b])) bs"
    using Cons.prems by (intro Cons.IH) simp_all
  then show ?case
    by (simp add: b)
qed





subsection \<open>Decoding\<close>




lemma map_alloc_length: "length (fst (map_alloc f W xs)) = length xs"
  by (induction xs arbitrary: W) (simp_all add: split_beta)

lemma map_alloc_all2:
  assumes "\<And>W x. P (fst (f W x)) x"
  shows "list_all2 P (fst (map_alloc f W xs)) xs"
  by (induction xs arbitrary: W) (simp_all add: split_beta assms)




lemma deserialised_conditions:
  "list_all2 (\<lambda>b sb. \<exists>n. br_condition b = deserialiseCondition E n (sb_condition sb))
     (fst (map_alloc (SimulationBranch_deserialise E) W sbs)) sbs"
  by (rule map_alloc_all2)
    (auto simp: SimulationBranch_deserialise_def GameState_deserialize_def
      deserialiseCondition_call_def new_SimulationBranch_def deepCopy_def)



lemma decode_simulation:
  "fst (Simulation_deserialise_decode E W ss) =
     \<lparr>sim_gameState =
        fresh (snd (map_alloc (deserialiseCondition_call E)
                      (snd (GameState_deserialize E W (ss_gameState ss))) (ss_conditions ss))),
      sim_branches = [],
      sim_conditions =
        fst (map_alloc (deserialiseCondition_call E)
               (snd (GameState_deserialize E W (ss_gameState ss))) (ss_conditions ss))\<rparr>"
  by (simp add: Simulation_deserialise_decode_def new_Simulation_def deepCopy_def split_beta
      GameState_deserialize_def)

lemma decode_branches:
  "\<exists>W3. fst (snd (Simulation_deserialise_decode E W ss)) =
          fst (map_alloc (SimulationBranch_deserialise E) W3 (ss_branches ss))"
  by (auto simp: Simulation_deserialise_decode_def split_beta)

lemma deserialise_split:
  "fst (Simulation_deserialise E W ss) =
     foldl insert_branch (fst (Simulation_deserialise_decode E W ss))
       (fst (snd (Simulation_deserialise_decode E W ss)))"
  "snd (Simulation_deserialise E W ss) = snd (snd (Simulation_deserialise_decode E W ss))"
  by (simp_all add: Simulation_deserialise_def split_beta)



lemma Map_push_mset:
  "Map_has m k \<Longrightarrow>
   mset (concat (map snd (Map_push m k b))) = mset (concat (map snd m)) + {#b#}"
  by (induction m) auto

lemma record_branch_mset:
  "mset (concat (map snd (record_branch m b))) = mset (concat (map snd m)) + {#b#}"
proof (cases "Map_has m (br_condition b)")
  case True
  then show ?thesis by (simp add: record_branch_def Map_push_mset)
next
  case False
  then show ?thesis by (simp add: record_branch_absent)
qed







lemma interning_env_contracts:
  "(\<forall>n c. obj_val (deserialiseCondition interning_env n (serialiseCondition interning_env c)) =
           obj_val c) \<and>
   (\<forall>gs. deepCopyState interning_env
            (deserializeState interning_env (serialiseState interning_env gs)) = gs)"
  by (simp add: interning_env_def table_env_def split: option.splits)


text \<open>
  Claim C10. \<^verbatim>\<open>Simulation.deserialise\<close> decodes one branch for each serialised branch,
  each with a condition object decoded from that branch's own serialised condition, and
  files it under that object; the loop that files the branches does not read the
  condition list of the simulation. When the decoded condition objects are distinct by
  identity, the branch map has one entry for each branch, holding that branch alone,
  whatever the contents of the conditions.
\<close>

theorem deserialise_keys_by_decoded_condition:
  "(distinct (map (\<lambda>b. obj_id (br_condition b))
               (fst (snd (Simulation_deserialise_decode E W ss)))) \<longrightarrow>
      sim_branches (fst (Simulation_deserialise E W ss)) =
        map (\<lambda>b. (br_condition b, [b])) (fst (snd (Simulation_deserialise_decode E W ss)))) \<and>
   length (fst (snd (Simulation_deserialise_decode E W ss))) = length (ss_branches ss) \<and>
   (\<forall>i<length (ss_branches ss).
      \<exists>n. br_condition (fst (snd (Simulation_deserialise_decode E W ss)) ! i) =
             deserialiseCondition E n (sb_condition (ss_branches ss ! i))) \<and>
   (\<forall>simulation conditions branches.
      sim_branches (foldl insert_branch (simulation\<lparr>sim_conditions := conditions\<rparr>) branches) =
      sim_branches (foldl insert_branch simulation branches))"
proof (intro conjI impI allI)
  let ?sim0 = "fst (Simulation_deserialise_decode E W ss)"
  let ?bs = "fst (snd (Simulation_deserialise_decode E W ss))"
  obtain W3 where bs: "?bs = fst (map_alloc (SimulationBranch_deserialise E) W3 (ss_branches ss))"
    using decode_branches by blast
  show len: "length ?bs = length (ss_branches ss)"
    by (simp add: bs map_alloc_length)
  show "i < length (ss_branches ss) \<Longrightarrow>
        \<exists>n. br_condition (?bs ! i) = deserialiseCondition E n (sb_condition (ss_branches ss ! i))"
    for i
    using deserialised_conditions [of E W3 "ss_branches ss"]
    by (simp add: bs list_all2_conv_all_nth)
  show "sim_branches (foldl insert_branch (simulation\<lparr>sim_conditions := conditions\<rparr>) branches) =
        sim_branches (foldl insert_branch simulation branches)"
    for simulation :: "'f Simulation" and conditions branches
    by (rule foldl_insert_branch_conditions)
  assume "distinct (map (\<lambda>b. obj_id (br_condition b)) ?bs)"
  then have "sim_branches (foldl insert_branch ?sim0 ?bs) =
             sim_branches ?sim0 @ map (\<lambda>b. (br_condition b, [b])) ?bs"
    by (rule foldl_insert_branch_distinct) (simp add: decode_simulation)
  then show "sim_branches (fst (Simulation_deserialise E W ss)) =
             map (\<lambda>b. (br_condition b, [b])) ?bs"
    by (simp add: deserialise_split decode_simulation)
qed

theorem deserialise_keys_by_decoded_condition_witness:
  "distinct (map (\<lambda>b. obj_id (br_condition b))
               (fst (snd (Simulation_deserialise_decode (table_env False) (table_world hand_A)
                            persisted_sim)))) \<and>
   sim_branches (fst (Simulation_deserialise (table_env False) (table_world hand_A) persisted_sim)) =
     [(Obj 5 ''CardA'',
       [\<lparr>br_gameState = 6, br_result = True, br_condition = Obj 5 ''CardA''\<rparr>]),
      (Obj 8 ''CardA'',
       [\<lparr>br_gameState = 9, br_result = False, br_condition = Obj 8 ''CardA''\<rparr>])] \<and>
   sim_conditions (fst (Simulation_deserialise (table_env False) (table_world hand_A)
                          persisted_sim)) = [Obj 2 ''CardA'']"
proof -
  have dec: "fst (snd (Simulation_deserialise_decode (table_env False) (table_world hand_A)
                         persisted_sim)) =
     [\<lparr>br_gameState = 6, br_result = True, br_condition = Obj 5 ''CardA''\<rparr>,
      \<lparr>br_gameState = 9, br_result = False, br_condition = Obj 8 ''CardA''\<rparr>]"
    by code_simp
  have d: "distinct (map (\<lambda>b. obj_id (br_condition b))
               (fst (snd (Simulation_deserialise_decode (table_env False) (table_world hand_A)
                            persisted_sim))))"
    unfolding dec by simp
  have "sim_branches (fst (Simulation_deserialise (table_env False) (table_world hand_A)
                             persisted_sim)) =
        map (\<lambda>b. (br_condition b, [b]))
          (fst (snd (Simulation_deserialise_decode (table_env False) (table_world hand_A)
                       persisted_sim)))"
    using deserialise_keys_by_decoded_condition
      [of "table_env False" "table_world hand_A" persisted_sim, THEN conjunct1, rule_format, OF d] .
  then have m: "sim_branches (fst (Simulation_deserialise (table_env False) (table_world hand_A)
                             persisted_sim)) =
     [(Obj 5 ''CardA'',
       [\<lparr>br_gameState = 6, br_result = True, br_condition = Obj 5 ''CardA''\<rparr>]),
      (Obj 8 ''CardA'',
       [\<lparr>br_gameState = 9, br_result = False, br_condition = Obj 8 ''CardA''\<rparr>])]"
    unfolding dec by simp
  have c: "sim_conditions (fst (Simulation_deserialise (table_env False) (table_world hand_A)
                          persisted_sim)) = [Obj 2 ''CardA'']"
    by code_simp
  show ?thesis
    using d m c by simp
qed

section \<open>After a success\<close>

text \<open>
  Once the simulation has a successful branch, recording further branches keeps it
  successful. The \<^verbatim>\<open>return\<close> statements that follow \<^verbatim>\<open>if (this.result)\<close> end one
  call or one callback, not the iteration: the pass of \<^verbatim>\<open>iterate\<close> for a later
  condition still records its baseline branch (and makes no search call), and the loop
  of a call of \<^verbatim>\<open>generateFreeCardPermutations\<close> that is resumed after a nested call
  found the success still explores its next usable candidate, recording one more branch,
  before it returns.
\<close>

lemma Map_push_keeps:
  "(k0, bs) \<in> set m \<Longrightarrow> \<exists>bs'. (k0, bs') \<in> set (Map_push m k b) \<and> set bs \<subseteq> set bs'"
proof (induction m)
  case Nil
  then show ?case by simp
next
  case (Cons e m)
  obtain k1 bs1 where e: "e = (k1, bs1)" by (cases e)
  show ?case
  proof (cases "(k0, bs) = e")
    case True
    then show ?thesis
      using e by (cases "obj_id k1 = obj_id k") auto
  next
    case False
    then have "(k0, bs) \<in> set m" using Cons.prems by simp
    then obtain bs' where "(k0, bs') \<in> set (Map_push m k b)" "set bs \<subseteq> set bs'"
      using Cons.IH by blast
    then show ?thesis
      using e Cons.prems by (cases "obj_id k1 = obj_id k") auto
  qed
qed

lemma record_branch_keeps:
  assumes "(k0, bs) \<in> set m"
  shows "\<exists>bs'. (k0, bs') \<in> set (record_branch m b) \<and> set bs \<subseteq> set bs'"
proof (cases "Map_has m (br_condition b)")
  case True
  then show ?thesis
    using assms by (simp add: record_branch_def Map_push_keeps)
next
  case False
  have "(k0, bs) \<in> set (m @ [(br_condition b, [])])" using assms by simp
  then have "\<exists>bs'. (k0, bs') \<in> set (Map_push (m @ [(br_condition b, [])]) (br_condition b) b) \<and>
                   set bs \<subseteq> set bs'"
    by (rule Map_push_keeps)
  then show ?thesis
    using False by (simp add: record_branch_def Map_set_absent)
qed

lemma Simulation_result_record:
  assumes "Simulation_result sim"
  shows "Simulation_result (sim\<lparr>sim_branches := record_branch (sim_branches sim) b\<rparr>)"
proof -
  obtain k bs x where "(k, bs) \<in> set (sim_branches sim)" "x \<in> set bs" "br_result x"
    using assms by (auto simp: Simulation_result_any)
  moreover then obtain bs' where "(k, bs') \<in> set (record_branch (sim_branches sim) b)"
    "set bs \<subseteq> set bs'"
    using record_branch_keeps by blast
  ultimately show ?thesis
    by (force simp: Simulation_result_any)
qed

lemma flat_branches_record:
  "length (flat_branches (sim\<lparr>sim_branches := record_branch (sim_branches sim) b\<rparr>)) =
   Suc (length (flat_branches sim))"
proof -
  have "size (mset (concat (map snd (record_branch (sim_branches sim) b)))) =
        size (mset (concat (map snd (sim_branches sim))) + {#b#})"
    by (simp only: record_branch_mset)
  then show ?thesis
    by (simp add: flat_branches_def)
qed

lemma freeCards_loop_after_success:
  assumes "Simulation_result (snd S)" "freeCardIsUsable E (cells (fst S) g) f"
  shows "freeCards_loop n E S g c u d (f # rest) = Returned (explore E S g c f) \<and>
         length (flat_branches (snd (explore E S g c f))) = Suc (length (flat_branches (snd S)))"
proof -
  have "Simulation_result (snd (explore E S g c f))"
    using assms(1) by (simp add: explore_sim Simulation_result_record)
  then show ?thesis
    using assms(2) by (simp add: freeCards_loop_Cons explore_sim flat_branches_record)
qed

lemma iterate_callback_after_success:
  assumes "Simulation_result (snd S)"
  shows "returned (iterate_callback n E S c) \<and>
         new_calls (fst S) (fst (state_of (iterate_callback n E S c))) = [] \<and>
         length (flat_branches (snd (state_of (iterate_callback n E S c)))) =
           Suc (length (flat_branches (snd S)))"
proof -
  let ?b = "\<lparr>br_gameState = fresh (fst S), br_result = False, br_condition = c\<rparr>"
  let ?W1 = "(fst S)\<lparr>cells := (cells (fst S))
                (fresh (fst S) := deepCopyState E (cells (fst S) (sim_gameState (snd S)))),
             fresh := Suc (fresh (fst S))\<rparr>"
  have r: "Simulation_result (runBranch E ?W1 (snd S) ?b)"
    using assms by (simp add: runBranch_record Simulation_result_record)
  then have "iterate_callback n E S c = Returned (?W1, runBranch E ?W1 (snd S) ?b)"
    by (simp add: iterate_callback_def new_SimulationBranch_def deepCopy_def Let_def)
  then show ?thesis
    by (simp add: new_calls_def runBranch_record flat_branches_record)
qed

section \<open>An endless supply\<close>

text \<open>
  The finiteness of the free supply is what makes the search return: with the endless
  collaborators every call finds a new free card in hand, and the search exceeds every
  budget.
\<close>

lemma Simulation_result_flat:
  "Simulation_result sim = (\<exists>b\<in>set (flat_branches sim). br_result b)"
  by (auto simp: Simulation_result_any flat_branches_def)

lemma flat_branches_record_set:
  "set (flat_branches (sim\<lparr>sim_branches := record_branch (sim_branches sim) b\<rparr>)) =
   insert b (set (flat_branches sim))"
proof -
  have "set_mset (mset (concat (map snd (record_branch (sim_branches sim) b)))) =
        set_mset (mset (concat (map snd (sim_branches sim))) + {#b#})"
    by (simp only: record_branch_mset)
  then show ?thesis
    by (simp add: flat_branches_def)
qed

lemma endless_explore_fails:
  assumes "\<not> Simulation_result (snd S)"
  shows "\<not> Simulation_result (snd (explore endless_env S g c f))"
proof -
  have "\<not> br_result (run endless_env W b)" for W and b :: "string SimulationBranch"
    by (simp add: run_def endless_env_def)
  then show ?thesis
    using assms
    by (simp add: explore_sim Simulation_result_flat flat_branches_record_set)
qed

lemma endless_never_returns:
  "\<not> Simulation_result (snd S) \<Longrightarrow> \<forall>x\<in>set u. obj_id x < cells (fst S) g \<Longrightarrow>
   \<not> returned (generateFreeCardPermutations n endless_env S g c u d)"
proof (induction n arbitrary: S g u d)
  case 0
  show ?case by simp
next
  case (Suc n)
  let ?S0 = "((fst S)\<lparr>calls := calls (fst S) @ [(d, u)]\<rparr>, snd S)"
  let ?f = "Obj (cells (fst S) g) ()"
  let ?S1 = "explore endless_env ?S0 g c ?f"
  have "\<not> Array_includes u ?f"
    using Suc.prems(2) by (auto simp: Array_includes_iff)
  then have cand: "candidates endless_env (cells (fst S) g) u = [?f]"
    by (simp add: candidates_def endless_env_def)
  have usable: "freeCardIsUsable endless_env (cells (fst ?S0) g) ?f"
    by (simp add: endless_env_def)
  have fail: "\<not> Simulation_result (snd ?S1)"
    using Suc.prems(1) by (intro endless_explore_fails) simp
  have cell: "cells (fst ?S1) (Suc (fresh (fst ?S0))) = Suc (cells (fst S) g)"
    by (simp add: explore_world endless_env_def)
  have "\<forall>x\<in>set (u @ [?f]). obj_id x < cells (fst ?S1) (Suc (fresh (fst ?S0)))"
    using Suc.prems(2) cell by auto
  then have child: "\<not> returned (generateFreeCardPermutations n endless_env ?S1
                                  (Suc (fresh (fst ?S0))) c (u @ [?f]) (Suc d))"
    using fail by (rule Suc.IH [rotated])
  have "\<not> returned (freeCards_loop n endless_env ?S0 g c u d [?f])"
  proof (cases "generateFreeCardPermutations n endless_env ?S1
                  (Suc (fresh (fst ?S0))) c (u @ [?f]) (Suc d)")
    case (Returned S')
    then show ?thesis using child by simp
  next
    case (DepthExceeded S')
    then show ?thesis
      using usable fail by (simp add: freeCards_loop_Cons)
  qed
  then show ?case
    using cand by (simp add: generateFreeCardPermutations.simps(2) Let_def)
qed

lemma endless_supply_never_returns:
  "\<not> returned (generateFreeCardPermutations n endless_env
                 (\<lparr>cells = (\<lambda>a. 0), fresh = 1, calls = []\<rparr>,
                  \<lparr>sim_gameState = 0, sim_branches = [], sim_conditions = [condB]\<rparr>)
                 0 condB [] 0)"
  by (rule endless_never_returns) (simp_all add: Simulation_result_flat flat_branches_def)

end
